theory Spec2Isabelle
  imports Main
begin

section \<open>Text, characters and the string helpers of toJson.py\<close>

text \<open>
  A Python \<open>str\<close> is a sequence of code points. The model uses \<open>string\<close>
  (\<open>char list\<close>), one \<open>char\<close> per code point, so it covers the texts whose code
  points are below 256. On that range \<open>str.strip()\<close> and the regex class \<open>\s\<close> agree
  on what whitespace is (TAB, LF, VT, FF, CR, FS, GS, RS, US, SPACE, NEL, NBSP), the
  regex class \<open>\d\<close> is \<open>0\<close>..\<open>9\<close>, and \<open>.\<close> is every character but LF.
\<close>

definition is_space :: "char \<Rightarrow> bool" where
  "is_space c =
     (let n = (of_char c :: nat)
      in (9 \<le> n \<and> n \<le> 13) \<or> (28 \<le> n \<and> n \<le> 32) \<or> n = 133 \<or> n = 160)"

definition is_digit :: "char \<Rightarrow> bool" where
  "is_digit c = (let n = (of_char c :: nat) in 48 \<le> n \<and> n \<le> 57)"

text \<open>\<open>p.strip()\<close>: leading and trailing whitespace removed.\<close>

definition strip :: "string \<Rightarrow> string" where
  "strip s = rev (dropWhile is_space (rev (dropWhile is_space s)))"

text \<open>
  \<open>inner.split(",")\<close> with an explicit separator: the fields between the separators,
  empty fields kept, so the result is never empty (\<open>"".split(",") == [""]\<close>).
\<close>

fun split_on :: "char \<Rightarrow> string \<Rightarrow> string list" where
  "split_on sep [] = [[]]"
| "split_on sep (c # cs) =
     (if c = sep then [] # split_on sep cs
      else (case split_on sep cs of
              p # ps \<Rightarrow> (c # p) # ps
            | [] \<Rightarrow> [[c]]))"

text \<open>\<open>sep.join(parts)\<close>.\<close>

fun join :: "string \<Rightarrow> string list \<Rightarrow> string" where
  "join sep [] = []"
| "join sep [p] = p"
| "join sep (p # q # ps) = p @ sep @ join sep (q # ps)"

text \<open>
  \<^verbatim>\<open>
  def normalize_key(inner: str) -> str:
      parts = [p.strip() for p in inner.split(",")]
      parts = [p for p in parts if p not in ("T", "NT") and p != ""]
      return "[" + ", ".join(parts) + "]"
  \<close>
\<close>

definition normalize_key :: "string \<Rightarrow> string" where
  "normalize_key inner =
     (let parts = map strip (split_on CHR '','' inner);
          parts = filter (\<lambda>p. p \<notin> set [''T'', ''NT''] \<and> p \<noteq> '''') parts
      in ''['' @ join '', '' parts @ '']'')"

section \<open>The two line patterns\<close>

text \<open>
  The patterns of the source use only single characters and the classes \<open>\s\<close>,
  \<open>\d\<close> and \<open>.\<close>, each taken once or under a greedy \<open>*\<close> or \<open>+\<close>, between
  \<open>^\<close> and \<open>$\<close>. A pattern is the list of these items; the parentheses of the
  source mark which item is a group.
\<close>

datatype cclass = Lit char | Space | Digit | Dot

fun cmatch :: "cclass \<Rightarrow> char \<Rightarrow> bool" where
  "cmatch (Lit a) x = (x = a)"
| "cmatch Space x = is_space x"
| "cmatch Digit x = is_digit x"
| "cmatch Dot x = (x \<noteq> CHR 0x0A)"

datatype quant = One | Star | Plus

type_synonym pattern = "(cclass \<times> quant) list"

text \<open>
  \<open>rmatch ps s\<close> is \<open>re.compile(ps).match(s)\<close> for a pattern that starts with
  \<open>^\<close> and ends with \<open>$\<close>: the backtracking search of Python's \<open>re\<close>. A greedy
  item first takes one more character and only when the rest of the pattern fails after
  that does it stop where it is. The result is the first match found, as the text each
  item consumed, one entry per item. \<open>$\<close> holds at the end of the text and just before
  a line feed that ends the text.
\<close>

fun rmatch :: "pattern \<Rightarrow> string \<Rightarrow> string list option" where
  "rmatch [] s = (if s = [] \<or> s = [CHR 0x0A] then Some [] else None)"
| "rmatch ((c, One) # ps) [] = None"
| "rmatch ((c, One) # ps) (x # xs) =
     (if cmatch c x then map_option ((#) [x]) (rmatch ps xs) else None)"
| "rmatch ((c, Star) # ps) [] = map_option ((#) []) (rmatch ps [])"
| "rmatch ((c, Star) # ps) (x # xs) =
     (case (if cmatch c x then rmatch ((c, Star) # ps) xs else None) of
        Some (g # gs) \<Rightarrow> Some ((x # g) # gs)
      | _ \<Rightarrow> map_option ((#) []) (rmatch ps (x # xs)))"
| "rmatch ((c, Plus) # ps) [] = None"
| "rmatch ((c, Plus) # ps) (x # xs) =
     (if cmatch c x
      then (case rmatch ((c, Star) # ps) xs of
              Some (g # gs) \<Rightarrow> Some ((x # g) # gs)
            | _ \<Rightarrow> None)
      else None)"

text \<open>\<^verbatim>\<open>STATE_RE = re.compile(r"^\s*State\s+(\d+)\s*$")\<close>; group 1 is item 7.\<close>

definition STATE_RE :: pattern where
  "STATE_RE =
     [(Space, Star),
      (Lit CHR ''S'', One), (Lit CHR ''t'', One), (Lit CHR ''a'', One),
      (Lit CHR ''t'', One), (Lit CHR ''e'', One),
      (Space, Plus), (Digit, Plus), (Space, Star)]"

text \<open>
  \<^verbatim>\<open>ITEM_RE  = re.compile(r"^\s*\[(.*)\]\s*:\s*(\d+)\s*$")\<close>; group 1 is item 2 and
  group 2 is item 7.
\<close>

definition ITEM_RE :: pattern where
  "ITEM_RE =
     [(Space, Star), (Lit CHR ''['', One), (Dot, Star), (Lit CHR '']'', One),
      (Space, Star), (Lit CHR '':'', One), (Space, Star), (Digit, Plus), (Space, Star)]"

text \<open>
  \<open>STATE_RE.match(line)\<close> with its \<open>group(1)\<close>, and \<open>ITEM_RE.match(line)\<close> with its
  \<open>group(1)\<close> and \<open>group(2)\<close>. A match has one entry per item of the pattern
  (\<open>rmatch_length\<close> below), so the indices are in range.
\<close>

definition state_match :: "string \<Rightarrow> string option" where
  "state_match line = map_option (\<lambda>segs. segs ! 7) (rmatch STATE_RE line)"

definition item_match :: "string \<Rightarrow> (string \<times> string) option" where
  "item_match line = map_option (\<lambda>segs. (segs ! 2, segs ! 7)) (rmatch ITEM_RE line)"

section \<open>Integers and their decimal text\<close>

text \<open>
  \<open>int(digits)\<close> on a text of decimal digits and \<open>str(n)\<close>. Python's integers are
  unbounded, so they are \<open>int\<close>; the interpreter's optional limit on the number of
  digits of a conversion is outside the model.
\<close>

definition digit_val :: "char \<Rightarrow> int" where
  "digit_val c = int (of_char c) - 48"

definition py_int :: "string \<Rightarrow> int" where
  "py_int ds = foldl (\<lambda>a d. 10 * a + digit_val d) 0 ds"

definition digit_char :: "nat \<Rightarrow> char" where
  "digit_char d = char_of (48 + d)"

fun digits_of :: "nat \<Rightarrow> string" where
  "digits_of n = (if n < 10 then [digit_char n] else digits_of (n div 10) @ [digit_char (n mod 10)])"

definition py_str :: "int \<Rightarrow> string" where
  "py_str i = (if i < 0 then CHR ''-'' # digits_of (nat (- i)) else digits_of (nat i))"

section \<open>The table\<close>

text \<open>
  An item is the dictionary \<open>{"key": ..., "value": ...}\<close>. The table \<open>data\<close> is a Python
  \<open>dict\<close>, which keeps its keys in insertion order (the order \<open>json.dumps\<close> writes the
  members in): an association list with distinct keys.
\<close>

datatype py_error = KeyError

record item =
  key :: string
  item_value :: int

type_synonym table = "(string \<times> item list) list"

text \<open>\<open>d.setdefault(k, [])\<close>: a key that is present keeps its value and its place.\<close>

definition setdefault :: "table \<Rightarrow> string \<Rightarrow> table" where
  "setdefault d k = (if k \<in> set (map fst d) then d else d @ [(k, [])])"

text \<open>\<open>d[k].append(x)\<close>: \<open>d[k]\<close> raises \<open>KeyError\<close> when the key is absent.\<close>

definition dict_append :: "table \<Rightarrow> string \<Rightarrow> item \<Rightarrow> py_error + table" where
  "dict_append d k x =
     (if k \<in> set (map fst d)
      then Inr (map (\<lambda>(k', v). if k' = k then (k', v @ [x]) else (k', v)) d)
      else Inl KeyError)"

section \<open>convert\<close>

record scan_state =
  data :: table
  current_state :: "int option"
  max_state_seen :: int

definition init_state :: scan_state where
  "init_state = \<lparr>data = [], current_state = None, max_state_seen = - 1\<rparr>"

text \<open>
  The body of \<open>for line in lines\<close>:
  \<^verbatim>\<open>
        m_state = STATE_RE.match(line)
        if m_state:
            current_state = int(m_state.group(1))
            max_state_seen = max(max_state_seen, current_state)
            data.setdefault(str(current_state), [])
            continue

        m_item = ITEM_RE.match(line)
        if m_item and current_state is not None:
            key_inner = m_item.group(1)
            value = int(m_item.group(2))
            data[str(current_state)].append({
                "key": normalize_key(key_inner),
                "value": value
            })
  \<close>
\<close>

definition loop_body :: "scan_state \<Rightarrow> string \<Rightarrow> py_error + scan_state" where
  "loop_body st line =
     (case state_match line of
        Some g1 \<Rightarrow>
          (let cs = py_int g1
           in Inr \<lparr>data = setdefault (data st) (py_str cs),
                   current_state = Some cs,
                   max_state_seen = max (max_state_seen st) cs\<rparr>)
      | None \<Rightarrow>
          (case (item_match line, current_state st) of
             (Some (key_inner, g2), Some cs) \<Rightarrow>
               (case dict_append (data st) (py_str cs)
                       \<lparr>key = normalize_key key_inner, item_value = py_int g2\<rparr> of
                  Inl e \<Rightarrow> Inl e
                | Inr d \<Rightarrow> Inr (st\<lparr>data := d\<rparr>))
           | _ \<Rightarrow> Inr st))"

fun scan :: "scan_state \<Rightarrow> string list \<Rightarrow> py_error + scan_state" where
  "scan st [] = Inr st"
| "scan st (line # lines) =
     (case loop_body st line of
        Inl e \<Rightarrow> Inl e
      | Inr st' \<Rightarrow> scan st' lines)"

text \<open>
  \<^verbatim>\<open>
    if include_empty_states:
        for s in range(max_state_seen + 1):
            data.setdefault(str(s), [])
  \<close>
\<close>

definition fill_gaps :: "table \<Rightarrow> int \<Rightarrow> table" where
  "fill_gaps d mx = foldl (\<lambda>d s. setdefault d (py_str s)) d [0..mx]"

text \<open>\<open>convert\<close> from the list \<open>lines\<close> on.\<close>

definition convert_lines :: "string list \<Rightarrow> bool \<Rightarrow> py_error + table" where
  "convert_lines lines include_empty_states =
     (case scan init_state lines of
        Inl e \<Rightarrow> Inl e
      | Inr st \<Rightarrow>
          Inr (if include_empty_states then fill_gaps (data st) (max_state_seen st)
               else data st))"

text \<open>
  \<open>txt.splitlines()\<close>: the text is cut at every line boundary (LF, CR, CR LF, VT, FF,
  FS, GS, RS, NEL), the boundaries are dropped, and a boundary at the very end opens no
  further line.
\<close>

definition is_linebreak :: "char \<Rightarrow> bool" where
  "is_linebreak c =
     (let n = (of_char c :: nat) in (10 \<le> n \<and> n \<le> 13) \<or> (28 \<le> n \<and> n \<le> 30) \<or> n = 133)"

fun splitlines_from :: "string \<Rightarrow> string \<Rightarrow> string list" where
  "splitlines_from cur [] = (if cur = [] then [] else [cur])"
| "splitlines_from cur [c] =
     (if is_linebreak c then [cur] else [cur @ [c]])"
| "splitlines_from cur (c # c' # cs) =
     (if c = CHR 0x0D \<and> c' = CHR 0x0A then cur # splitlines_from [] cs
      else if is_linebreak c then cur # splitlines_from [] (c' # cs)
      else splitlines_from (cur @ [c]) (c' # cs))"

definition splitlines :: "string \<Rightarrow> string list" where
  "splitlines txt = splitlines_from [] txt"

text \<open>
  \<open>convert\<close>, from the decoded text of the file on (reading and decoding the file is
  outside the model).
\<close>

definition convert :: "string \<Rightarrow> bool \<Rightarrow> py_error + table" where
  "convert txt include_empty_states = convert_lines (splitlines txt) include_empty_states"

section \<open>Notions the properties are stated with\<close>

text \<open>
  The state indices of the header lines of \<open>lines\<close>, in source order; a list with each
  element kept at its first occurrence only; the index of the last header line before
  position \<open>i\<close>; the item a line contributes when it is an item line (the header
  pattern is tried first); and the items of the item lines that stand under a header
  of state \<open>n\<close>, in source order.
\<close>

definition headers :: "string list \<Rightarrow> int list" where
  "headers lines = map py_int (List.map_filter state_match lines)"

definition first_seen :: "'a list \<Rightarrow> 'a list" where
  "first_seen xs = rev (remdups (rev xs))"

definition governing :: "string list \<Rightarrow> nat \<Rightarrow> int option" where
  "governing lines i =
     (case headers (take i lines) of
        [] \<Rightarrow> None
      | h # hs \<Rightarrow> Some (last (h # hs)))"

definition line_item :: "string \<Rightarrow> item option" where
  "line_item line =
     (case state_match line of
        Some g \<Rightarrow> None
      | None \<Rightarrow>
         map_option (\<lambda>(inner, ds). \<lparr>key = normalize_key inner, item_value = py_int ds\<rparr>)
           (item_match line))"

definition items_under :: "string list \<Rightarrow> int \<Rightarrow> item list" where
  "items_under lines n =
     List.map_filter
       (\<lambda>i. if governing lines i = Some n then line_item (lines ! i) else None)
       [0..<length lines]"

text \<open>
  The state of the loop after the lines \<open>ls\<close>, written without the loop: the table has
  one entry per header index, in the order of first occurrence, each with the items
  under its headers; the current state is the index of the last header; the maximum is
  the largest index, or \<open>-1\<close>.
\<close>

definition state_after :: "string list \<Rightarrow> scan_state" where
  "state_after ls =
     \<lparr>data = map (\<lambda>n. (py_str n, items_under ls n)) (first_seen (headers ls)),
      current_state = governing ls (length ls),
      max_state_seen = Max (insert (- 1) (set (headers ls)))\<rparr>"

text \<open>
  What an item of a pattern can consume: one character of its class, any run of them, or
  a run that is not empty.
\<close>

fun seg_ok :: "cclass \<times> quant \<Rightarrow> string \<Rightarrow> bool" where
  "seg_ok (c, One) g = (length g = 1 \<and> list_all (cmatch c) g)"
| "seg_ok (c, Star) g = list_all (cmatch c) g"
| "seg_ok (c, Plus) g = (g \<noteq> [] \<and> list_all (cmatch c) g)"

text \<open>
  The text after the last colon of a line (the whole line when it has no colon), and
  the texts that are a plain unsigned digit sequence.
\<close>

definition after_last_colon :: "string \<Rightarrow> string" where
  "after_last_colon line = rev (takeWhile (\<lambda>c. c \<noteq> CHR '':'') (rev line))"

definition unsigned_digits :: "string \<Rightarrow> bool" where
  "unsigned_digits s = (s \<noteq> [] \<and> list_all is_digit s)"

text \<open>
  The state indices of the table \<open>convert\<close> returns, in the order of its keys: the header
  indices in the order of first occurrence and, with gap filling, after them the
  indices from 0 to the largest header index that no header names, ascending.
\<close>

definition key_order :: "string list \<Rightarrow> bool \<Rightarrow> int list" where
  "key_order lines include_empty_states =
     first_seen (headers lines) @
       (if include_empty_states
        then filter (\<lambda>s. s \<notin> set (headers lines)) [0..Max (insert (- 1) (set (headers lines)))]
        else [])"

text \<open>The member names of a table stand in numeric-ascending order of state index.\<close>

definition ascending_names :: "table \<Rightarrow> bool" where
  "ascending_names t = sorted_wrt (<) (map py_int (map fst t))"


section \<open>Facts about the pattern matcher\<close>

lemma rmatch_length: "rmatch ps s = Some segs \<Longrightarrow> length segs = length ps"
  by (induction ps s arbitrary: segs rule: rmatch.induct)
     (auto split: if_splits option.splits list.splits)

lemma rmatch_sound:
  "rmatch ps s = Some segs \<Longrightarrow>
     list_all2 seg_ok ps segs \<and> (s = concat segs \<or> s = concat segs @ [CHR 0x0A])"
proof (induction ps s arbitrary: segs rule: rmatch.induct)
  case (1 s)
  then show ?case by (auto split: if_splits)
next
  case (2 c ps)
  then show ?case by simp
next
  case (3 c ps x xs)
  then show ?case by (auto split: if_splits)
next
  case (4 c ps)
  then show ?case by auto
next
  case (5 c ps x xs)
  let ?inner = "if cmatch c x then rmatch ((c, Star) # ps) xs else None"
  show ?case
  proof (cases ?inner)
    case None
    with "5.prems" obtain gs where gs: "rmatch ps (x # xs) = Some gs" and segs: "segs = [] # gs"
      by auto
    from "5.IH"(2) [OF None gs] show ?thesis unfolding segs by auto
  next
    case (Some x2)
    show ?thesis
    proof (cases x2)
      case Nil
      with Some "5.prems" obtain gs where gs: "rmatch ps (x # xs) = Some gs"
        and segs: "segs = [] # gs"
        by auto
      from "5.IH"(3) [OF Some Nil gs] show ?thesis unfolding segs by auto
    next
      case (Cons g gs)
      with Some have cx: "cmatch c x" and r: "rmatch ((c, Star) # ps) xs = Some (g # gs)"
        by (auto split: if_splits)
      from "5.prems" Some Cons have segs: "segs = (x # g) # gs" by simp
      from "5.IH"(1) [OF cx r] cx show ?thesis unfolding segs by auto
    qed
  qed
next
  case (6 c ps)
  then show ?case by simp
next
  case (7 c ps x xs)
  from "7.prems" obtain g gs where cx: "cmatch c x"
    and r: "rmatch ((c, Star) # ps) xs = Some (g # gs)" and segs: "segs = (x # g) # gs"
    by (auto split: if_splits option.splits list.splits)
  from "7.IH" [OF cx r] cx show ?case unfolding segs by auto
qed

lemma rmatch_One:
  "cmatch c x \<Longrightarrow> rmatch ps rest = Some gs \<Longrightarrow> rmatch ((c, One) # ps) (x # rest) = Some ([x] # gs)"
  by simp

lemma rmatch_Star_none:
  "(\<And>g' r'. rest = g' @ r' \<Longrightarrow> g' \<noteq> [] \<Longrightarrow> list_all (cmatch c) g' \<Longrightarrow> rmatch ps r' = None)
   \<Longrightarrow> rmatch ((c, Star) # ps) rest = map_option ((#) []) (rmatch ps rest)"
proof (induction rest)
  case Nil
  show ?case by simp
next
  case (Cons x xs)
  show ?case
  proof (cases "cmatch c x")
    case False
    then show ?thesis by simp
  next
    case True
    have "rmatch ((c, Star) # ps) xs = map_option ((#) []) (rmatch ps xs)"
    proof (rule Cons.IH)
      fix g' r' assume "xs = g' @ r'" "g' \<noteq> []" "list_all (cmatch c) g'"
      then show "rmatch ps r' = None"
        using Cons.prems [of "x # g'" r'] True by simp
    qed
    moreover have "rmatch ps xs = None"
      using Cons.prems [of "[x]" xs] True by simp
    ultimately show ?thesis using True by simp
  qed
qed

lemma rmatch_Star_greedy:
  assumes "list_all (cmatch c) g" and "rmatch ps rest = Some gs"
    and "\<And>g' r'. rest = g' @ r' \<Longrightarrow> g' \<noteq> [] \<Longrightarrow> list_all (cmatch c) g' \<Longrightarrow> rmatch ps r' = None"
  shows "rmatch ((c, Star) # ps) (g @ rest) = Some (g # gs)"
  using assms(1)
proof (induction g)
  case Nil
  show ?case using rmatch_Star_none [of rest c ps] assms(2,3) by simp
next
  case (Cons x g)
  then show ?case by simp
qed

lemma rmatch_Star_stop:
  assumes "list_all (cmatch c) g" and "rmatch ps rest = Some gs"
    and "rest = [] \<or> \<not> cmatch c (hd rest)"
  shows "rmatch ((c, Star) # ps) (g @ rest) = Some (g # gs)"
proof (rule rmatch_Star_greedy [OF assms(1,2)])
  fix g' r' assume "rest = g' @ r'" "g' \<noteq> []" "list_all (cmatch c) g'"
  with assms(3) show "rmatch ps r' = None" by (cases g') auto
qed

lemma rmatch_Plus_stop:
  assumes "g \<noteq> []" and "list_all (cmatch c) g" and "rmatch ps rest = Some gs"
    and "rest = [] \<or> \<not> cmatch c (hd rest)"
  shows "rmatch ((c, Plus) # ps) (g @ rest) = Some (g # gs)"
proof -
  from assms(1) obtain x g' where g: "g = x # g'" by (cases g) auto
  with assms(2) have "cmatch c x" and "list_all (cmatch c) g'" by auto
  then show ?thesis
    using rmatch_Star_stop [of c g' ps rest gs] assms(3,4) by (simp add: g)
qed

lemma digit_not_space: "is_digit c \<Longrightarrow> \<not> is_space c"
  by (auto simp: is_digit_def is_space_def Let_def)

lemma punct_classes:
  "\<not> is_space CHR ''['' " "\<not> is_space CHR '']''" "\<not> is_space CHR '':''"
  "\<not> is_digit CHR ''['' " "\<not> is_digit CHR '']''" "\<not> is_digit CHR '':''"
  "\<not> is_space CHR ''S''" "is_space CHR 0x0A"
  by (simp_all add: is_digit_def is_space_def)

lemma cmatch_classes: "cmatch Space = is_space" "cmatch Digit = is_digit"
  by (simp_all add: fun_eq_iff)

lemma item_match_complete:
  assumes ws: "list_all is_space ws1" "list_all is_space ws2" "list_all is_space ws3"
      "list_all is_space ws4"
    and inner: "CHR 0x0A \<notin> set inner"
    and ds: "ds \<noteq> []" "list_all is_digit ds"
  shows "rmatch ITEM_RE (ws1 @ ''['' @ inner @ '']'' @ ws2 @ '':'' @ ws3 @ ds @ ws4)
           = Some [ws1, ''['', inner, '']'', ws2, '':'', ws3, ds, ws4]"
proof -
  let ?p8 = "[(Space, Star)]"
  let ?p7 = "(Digit, Plus) # ?p8"
  let ?p6 = "(Space, Star) # ?p7"
  let ?p5 = "(Lit CHR '':'', One) # ?p6"
  let ?p4 = "(Space, Star) # ?p5"
  let ?p3 = "(Lit CHR '']'', One) # ?p4"
  let ?p2 = "(Dot, Star) # ?p3"
  let ?p1 = "(Lit CHR ''['', One) # ?p2"
  have r8: "rmatch ?p8 ws4 = Some [ws4]"
    using rmatch_Star_stop [of Space ws4 "[]" "[]" "[]"] ws by (simp add: cmatch_classes)
  have "ws4 = [] \<or> \<not> cmatch Digit (hd ws4)"
    using ws(4) by (cases ws4) (auto dest: digit_not_space)
  then have r7: "rmatch ?p7 (ds @ ws4) = Some [ds, ws4]"
    using rmatch_Plus_stop [of ds Digit ?p8 ws4 "[ws4]"] ds r8 by (simp add: cmatch_classes)
  have "\<not> cmatch Space (hd (ds @ ws4))"
    using ds by (cases ds) (auto dest: digit_not_space)
  then have r6: "rmatch ?p6 (ws3 @ ds @ ws4) = Some [ws3, ds, ws4]"
    using rmatch_Star_stop [of Space ws3 ?p7 "ds @ ws4" "[ds, ws4]"] ws r7 by (simp add: cmatch_classes)
  have r5: "rmatch ?p5 ('':'' @ ws3 @ ds @ ws4) = Some ['':'', ws3, ds, ws4]"
    using r6 by simp
  have r4: "rmatch ?p4 (ws2 @ '':'' @ ws3 @ ds @ ws4) = Some [ws2, '':'', ws3, ds, ws4]"
    using rmatch_Star_stop [of Space ws2 ?p5 "'':'' @ ws3 @ ds @ ws4" "['':'', ws3, ds, ws4]"]
      ws r5 by (simp add: punct_classes cmatch_classes)
  let ?tail = "ws2 @ '':'' @ ws3 @ ds @ ws4"
  have r3: "rmatch ?p3 ('']'' @ ?tail) = Some ['']'', ws2, '':'', ws3, ds, ws4]"
    using r4 by simp
  have no_br: "CHR '']'' \<notin> set ?tail"
    using ws ds by (auto simp: list_all_iff punct_classes)
  have r2: "rmatch ?p2 (inner @ '']'' @ ?tail) = Some [inner, '']'', ws2, '':'', ws3, ds, ws4]"
  proof (rule rmatch_Star_greedy [OF _ r3])
    show "list_all (cmatch Dot) inner" using inner by (auto simp: list_all_iff)
  next
    fix g' r' assume split: "'']'' @ ?tail = g' @ r'" and ne: "g' \<noteq> []"
    then obtain g'' where "g' = CHR '']'' # g''" and "?tail = g'' @ r'"
      by (cases g') auto
    then have "CHR '']'' \<notin> set r'" using no_br by (metis Un_iff set_append)
    then show "rmatch ?p3 r' = None" by (cases r') auto
  qed
  have r1: "rmatch ?p1 (''['' @ inner @ '']'' @ ?tail)
              = Some [''['', inner, '']'', ws2, '':'', ws3, ds, ws4]"
    using r2 by simp
  have "rmatch ((Space, Star) # ?p1) (ws1 @ ''['' @ inner @ '']'' @ ?tail)
          = Some [ws1, ''['', inner, '']'', ws2, '':'', ws3, ds, ws4]"
    using rmatch_Star_stop [of Space ws1 ?p1 "''['' @ inner @ '']'' @ ?tail"
        "[''['', inner, '']'', ws2, '':'', ws3, ds, ws4]"] ws r1
    by (simp add: punct_classes cmatch_classes)
  then show ?thesis by (simp add: ITEM_RE_def)
qed

lemma item_match_sound:
  assumes "rmatch ITEM_RE line = Some segs"
  shows "\<exists>ws1 inner ws2 ws3 ds ws4 e.
           segs = [ws1, ''['', inner, '']'', ws2, '':'', ws3, ds, ws4]
         \<and> line = ws1 @ ''['' @ inner @ '']'' @ ws2 @ '':'' @ ws3 @ ds @ ws4 @ e
         \<and> (e = [] \<or> e = [CHR 0x0A])
         \<and> list_all is_space ws1 \<and> list_all is_space ws2 \<and> list_all is_space ws3
         \<and> list_all is_space ws4 \<and> CHR 0x0A \<notin> set inner \<and> ds \<noteq> [] \<and> list_all is_digit ds"
proof -
  from rmatch_sound [OF assms]
  have ok: "list_all2 seg_ok ITEM_RE segs"
    and line: "line = concat segs \<or> line = concat segs @ [CHR 0x0A]" by auto
  from ok obtain ws1 b1 inner b2 ws2 col ws3 ds ws4 where
    segs: "segs = [ws1, b1, inner, b2, ws2, col, ws3, ds, ws4]"
    and p: "seg_ok (Space, Star) ws1" "seg_ok (Lit CHR ''['', One) b1" "seg_ok (Dot, Star) inner"
      "seg_ok (Lit CHR '']'', One) b2" "seg_ok (Space, Star) ws2" "seg_ok (Lit CHR '':'', One) col"
      "seg_ok (Space, Star) ws3" "seg_ok (Digit, Plus) ds" "seg_ok (Space, Star) ws4"
    by (auto simp: ITEM_RE_def list_all2_Cons1)
  from p(2) have b1: "b1 = ''[''" by (cases b1) auto
  from p(4) have b2: "b2 = '']''" by (cases b2) auto
  from p(6) have col: "col = '':''" by (cases col) auto
  have cls: "list_all is_space ws1" "list_all is_space ws2" "list_all is_space ws3"
    "list_all is_space ws4" "ds \<noteq> []" "list_all is_digit ds"
    using p by (simp_all add: list_all_iff)
  have inner: "CHR 0x0A \<notin> set inner" using p(3) by (auto simp: list_all_iff)
  from line obtain e where "line = concat segs @ e" and "e = [] \<or> e = [CHR 0x0A]" by auto
  then show ?thesis using segs b1 b2 col cls inner by auto
qed

lemma state_match_complete:
  assumes ws: "list_all is_space ws1" "ws2 \<noteq> []" "list_all is_space ws2" "list_all is_space ws3"
    and ds: "ds \<noteq> []" "list_all is_digit ds"
  shows "rmatch STATE_RE (ws1 @ ''State'' @ ws2 @ ds @ ws3)
           = Some [ws1, ''S'', ''t'', ''a'', ''t'', ''e'', ws2, ds, ws3]"
proof -
  let ?p8 = "[(Space, Star)]"
  let ?p7 = "(Digit, Plus) # ?p8"
  let ?p6 = "(Space, Plus) # ?p7"
  let ?p1 = "(Lit CHR ''S'', One) # (Lit CHR ''t'', One) # (Lit CHR ''a'', One)
               # (Lit CHR ''t'', One) # (Lit CHR ''e'', One) # ?p6"
  have r8: "rmatch ?p8 ws3 = Some [ws3]"
    using rmatch_Star_stop [of Space ws3 "[]" "[]" "[]"] ws by (simp add: cmatch_classes)
  have "ws3 = [] \<or> \<not> cmatch Digit (hd ws3)"
    using ws(4) by (cases ws3) (auto dest: digit_not_space)
  then have r7: "rmatch ?p7 (ds @ ws3) = Some [ds, ws3]"
    using rmatch_Plus_stop [of ds Digit ?p8 ws3 "[ws3]"] ds r8 by (simp add: cmatch_classes)
  have "\<not> cmatch Space (hd (ds @ ws3))"
    using ds by (cases ds) (auto dest: digit_not_space)
  then have r6: "rmatch ?p6 (ws2 @ ds @ ws3) = Some [ws2, ds, ws3]"
    using rmatch_Plus_stop [of ws2 Space ?p7 "ds @ ws3" "[ds, ws3]"] ws r7
    by (simp add: cmatch_classes)
  have r1: "rmatch ?p1 (''State'' @ ws2 @ ds @ ws3)
              = Some [''S'', ''t'', ''a'', ''t'', ''e'', ws2, ds, ws3]"
    using r6 by simp
  have "rmatch ((Space, Star) # ?p1) (ws1 @ ''State'' @ ws2 @ ds @ ws3)
          = Some [ws1, ''S'', ''t'', ''a'', ''t'', ''e'', ws2, ds, ws3]"
    using rmatch_Star_stop [of Space ws1 ?p1 "''State'' @ ws2 @ ds @ ws3"
        "[''S'', ''t'', ''a'', ''t'', ''e'', ws2, ds, ws3]"] ws r1
    by (simp add: punct_classes cmatch_classes)
  then show ?thesis by (simp add: STATE_RE_def)
qed

lemma state_match_sound:
  assumes "rmatch STATE_RE line = Some segs"
  shows "\<exists>ws1 ws2 ds ws3 e.
           segs = [ws1, ''S'', ''t'', ''a'', ''t'', ''e'', ws2, ds, ws3]
         \<and> line = ws1 @ ''State'' @ ws2 @ ds @ ws3 @ e
         \<and> (e = [] \<or> e = [CHR 0x0A])
         \<and> list_all is_space ws1 \<and> ws2 \<noteq> [] \<and> list_all is_space ws2
         \<and> list_all is_space ws3 \<and> ds \<noteq> [] \<and> list_all is_digit ds"
proof -
  from rmatch_sound [OF assms]
  have ok: "list_all2 seg_ok STATE_RE segs"
    and line: "line = concat segs \<or> line = concat segs @ [CHR 0x0A]" by auto
  from ok obtain ws1 c1 c2 c3 c4 c5 ws2 ds ws3 where
    segs: "segs = [ws1, c1, c2, c3, c4, c5, ws2, ds, ws3]"
    and p: "seg_ok (Space, Star) ws1" "seg_ok (Lit CHR ''S'', One) c1"
      "seg_ok (Lit CHR ''t'', One) c2" "seg_ok (Lit CHR ''a'', One) c3"
      "seg_ok (Lit CHR ''t'', One) c4" "seg_ok (Lit CHR ''e'', One) c5"
      "seg_ok (Space, Plus) ws2" "seg_ok (Digit, Plus) ds" "seg_ok (Space, Star) ws3"
    by (auto simp: STATE_RE_def list_all2_Cons1)
  from p(2) have c1: "c1 = ''S''" by (cases c1) auto
  from p(3) have c2: "c2 = ''t''" by (cases c2) auto
  from p(4) have c3: "c3 = ''a''" by (cases c3) auto
  from p(5) have c4: "c4 = ''t''" by (cases c4) auto
  from p(6) have c5: "c5 = ''e''" by (cases c5) auto
  have cls: "list_all is_space ws1" "ws2 \<noteq> []" "list_all is_space ws2"
    "list_all is_space ws3" "ds \<noteq> []" "list_all is_digit ds"
    using p by (simp_all add: list_all_iff)
  from line obtain e where "line = concat segs @ e" and "e = [] \<or> e = [CHR 0x0A]" by auto
  then show ?thesis using segs c1 c2 c3 c4 c5 cls by auto
qed

lemma state_match_digits: "state_match line = Some g \<Longrightarrow> unsigned_digits g"
proof -
  assume "state_match line = Some g"
  then obtain segs where r: "rmatch STATE_RE line = Some segs" and g: "g = segs ! 7"
    by (auto simp: state_match_def)
  from state_match_sound [OF r] g show ?thesis by (auto simp: unsigned_digits_def)
qed

lemma state_match_no_colon: "state_match line = Some g \<Longrightarrow> CHR '':'' \<notin> set line"
proof -
  assume "state_match line = Some g"
  then obtain segs where r: "rmatch STATE_RE line = Some segs"
    by (auto simp: state_match_def)
  from state_match_sound [OF r] obtain ws1 ws2 ds ws3 e where
    line: "line = ws1 @ ''State'' @ ws2 @ ds @ ws3 @ e" and e: "e = [] \<or> e = [CHR 0x0A]"
    and cls: "list_all is_space ws1" "list_all is_space ws2" "list_all is_space ws3"
      "list_all is_digit ds"
    by blast
  show ?thesis unfolding line using e cls by (auto simp: list_all_iff punct_classes)
qed

lemma item_match_Some_iff:
  "item_match line = Some (inner, ds) \<longleftrightarrow>
     (\<exists>ws1 ws2 ws3 ws4.
        line = ws1 @ ''['' @ inner @ '']'' @ ws2 @ '':'' @ ws3 @ ds @ ws4
      \<and> list_all is_space ws1 \<and> list_all is_space ws2 \<and> list_all is_space ws3
      \<and> list_all is_space ws4 \<and> CHR 0x0A \<notin> set inner \<and> ds \<noteq> [] \<and> list_all is_digit ds)"
proof
  assume "item_match line = Some (inner, ds)"
  then obtain segs where r: "rmatch ITEM_RE line = Some segs"
    and g: "inner = segs ! 2" "ds = segs ! 7"
    by (auto simp: item_match_def)
  from item_match_sound [OF r] obtain ws1 inner' ws2 ws3 ds' ws4 e where
    segs: "segs = [ws1, ''['', inner', '']'', ws2, '':'', ws3, ds', ws4]"
    and line: "line = ws1 @ ''['' @ inner' @ '']'' @ ws2 @ '':'' @ ws3 @ ds' @ ws4 @ e"
    and e: "e = [] \<or> e = [CHR 0x0A]"
    and cls: "list_all is_space ws1" "list_all is_space ws2" "list_all is_space ws3"
      "list_all is_space ws4" "CHR 0x0A \<notin> set inner'" "ds' \<noteq> []" "list_all is_digit ds'"
    by blast
  from g segs have eq: "inner' = inner" "ds' = ds" by simp_all
  have "list_all is_space (ws4 @ e)" using cls(4) e by (auto simp: punct_classes)
  then show "\<exists>ws1 ws2 ws3 ws4.
        line = ws1 @ ''['' @ inner @ '']'' @ ws2 @ '':'' @ ws3 @ ds @ ws4
      \<and> list_all is_space ws1 \<and> list_all is_space ws2 \<and> list_all is_space ws3
      \<and> list_all is_space ws4 \<and> CHR 0x0A \<notin> set inner \<and> ds \<noteq> [] \<and> list_all is_digit ds"
    using line cls eq by blast
next
  assume "\<exists>ws1 ws2 ws3 ws4.
        line = ws1 @ ''['' @ inner @ '']'' @ ws2 @ '':'' @ ws3 @ ds @ ws4
      \<and> list_all is_space ws1 \<and> list_all is_space ws2 \<and> list_all is_space ws3
      \<and> list_all is_space ws4 \<and> CHR 0x0A \<notin> set inner \<and> ds \<noteq> [] \<and> list_all is_digit ds"
  then obtain ws1 ws2 ws3 ws4 where
    line: "line = ws1 @ ''['' @ inner @ '']'' @ ws2 @ '':'' @ ws3 @ ds @ ws4"
    and cls: "list_all is_space ws1" "list_all is_space ws2" "list_all is_space ws3"
      "list_all is_space ws4" "CHR 0x0A \<notin> set inner" "ds \<noteq> []" "list_all is_digit ds"
    by blast
  have "rmatch ITEM_RE line = Some [ws1, ''['', inner, '']'', ws2, '':'', ws3, ds, ws4]"
    unfolding line using cls by (rule item_match_complete)
  then show "item_match line = Some (inner, ds)"
    by (simp add: item_match_def)
qed

lemma state_match_Some_iff:
  "state_match line = Some ds \<longleftrightarrow>
     (\<exists>ws1 ws2 ws3.
        line = ws1 @ ''State'' @ ws2 @ ds @ ws3
      \<and> list_all is_space ws1 \<and> ws2 \<noteq> [] \<and> list_all is_space ws2
      \<and> list_all is_space ws3 \<and> ds \<noteq> [] \<and> list_all is_digit ds)"
proof
  assume "state_match line = Some ds"
  then obtain segs where r: "rmatch STATE_RE line = Some segs" and g: "ds = segs ! 7"
    by (auto simp: state_match_def)
  from state_match_sound [OF r] obtain ws1 ws2 ds' ws3 e where
    segs: "segs = [ws1, ''S'', ''t'', ''a'', ''t'', ''e'', ws2, ds', ws3]"
    and line: "line = ws1 @ ''State'' @ ws2 @ ds' @ ws3 @ e"
    and e: "e = [] \<or> e = [CHR 0x0A]"
    and cls: "list_all is_space ws1" "ws2 \<noteq> []" "list_all is_space ws2"
      "list_all is_space ws3" "ds' \<noteq> []" "list_all is_digit ds'"
    by blast
  from g segs have eq: "ds' = ds" by simp
  have "list_all is_space (ws3 @ e)" using cls(4) e by (auto simp: punct_classes)
  then show "\<exists>ws1 ws2 ws3.
        line = ws1 @ ''State'' @ ws2 @ ds @ ws3
      \<and> list_all is_space ws1 \<and> ws2 \<noteq> [] \<and> list_all is_space ws2
      \<and> list_all is_space ws3 \<and> ds \<noteq> [] \<and> list_all is_digit ds"
    using line cls eq by blast
next
  assume "\<exists>ws1 ws2 ws3.
        line = ws1 @ ''State'' @ ws2 @ ds @ ws3
      \<and> list_all is_space ws1 \<and> ws2 \<noteq> [] \<and> list_all is_space ws2
      \<and> list_all is_space ws3 \<and> ds \<noteq> [] \<and> list_all is_digit ds"
  then obtain ws1 ws2 ws3 where
    line: "line = ws1 @ ''State'' @ ws2 @ ds @ ws3"
    and cls: "list_all is_space ws1" "ws2 \<noteq> []" "list_all is_space ws2"
      "list_all is_space ws3" "ds \<noteq> []" "list_all is_digit ds"
    by blast
  have "rmatch STATE_RE line = Some [ws1, ''S'', ''t'', ''a'', ''t'', ''e'', ws2, ds, ws3]"
    unfolding line using cls by (rule state_match_complete)
  then show "state_match line = Some ds"
    by (simp add: state_match_def)
qed

section \<open>Facts about the string helpers\<close>

lemma split_on_nonempty: "split_on sep s \<noteq> []"
  by (induction s) (auto split: list.splits)

lemma split_on_no_sep: "t \<in> set (split_on sep s) \<Longrightarrow> sep \<notin> set t"
  by (induction s arbitrary: t) (auto split: if_splits list.splits)

lemma join_split_on: "join [sep] (split_on sep s) = s"
proof (induction s)
  case Nil
  show ?case by simp
next
  case (Cons c cs)
  obtain p ps where ps: "split_on sep cs = p # ps"
    using split_on_nonempty [of sep cs] by (cases "split_on sep cs") auto
  show ?case
  proof (cases "c = sep")
    case True
    with Cons ps show ?thesis by simp
  next
    case False
    with Cons ps show ?thesis by (cases ps) auto
  qed
qed

lemma split_on_single: "sep \<notin> set p \<Longrightarrow> split_on sep p = [p]"
  by (induction p) auto

lemma split_on_append: "sep \<notin> set p \<Longrightarrow> split_on sep (p @ sep # rest) = p # split_on sep rest"
  by (induction p) auto

lemma split_on_join:
  "ps \<noteq> [] \<Longrightarrow> \<forall>p\<in>set ps. sep \<notin> set p \<Longrightarrow> split_on sep (join [sep] ps) = ps"
  by (induction "[sep]" ps rule: join.induct) (auto simp: split_on_single split_on_append)

lemma strip_decomp:
  "\<exists>l r. t = l @ strip t @ r \<and> (\<forall>c\<in>set l. is_space c) \<and> (\<forall>c\<in>set r. is_space c)"
proof -
  let ?a = "dropWhile is_space t"
  let ?l = "takeWhile is_space t"
  let ?r = "rev (takeWhile is_space (rev ?a))"
  have "t = ?l @ ?a" by simp
  moreover have "rev ?a = takeWhile is_space (rev ?a) @ dropWhile is_space (rev ?a)" by simp
  then have "?a = strip t @ ?r"
    unfolding strip_def by (metis rev_append rev_rev_ident)
  moreover have "\<forall>c\<in>set ?l. is_space c" by (auto dest: set_takeWhileD)
  moreover have "\<forall>c\<in>set ?r. is_space c" by (auto dest: set_takeWhileD)
  ultimately show ?thesis by (metis append_assoc)
qed

lemma strip_ends:
  "strip t \<noteq> [] \<Longrightarrow> \<not> is_space (hd (strip t)) \<and> \<not> is_space (last (strip t))"
proof -
  assume ne: "strip t \<noteq> []"
  let ?a = "dropWhile is_space t"
  let ?b = "dropWhile is_space (rev ?a)"
  have b: "?b \<noteq> []" using ne by (simp add: strip_def)
  then have hb: "\<not> is_space (hd ?b)" by (rule hd_dropWhile)
  have a: "?a \<noteq> []" using b by (metis dropWhile.simps(1) rev.simps(1))
  then have ha: "\<not> is_space (hd ?a)" by (rule hd_dropWhile)
  have "rev ?a = takeWhile is_space (rev ?a) @ ?b" by simp
  then have "last (rev ?a) = last ?b" using b by (metis last_appendR)
  then have "last ?b = hd ?a" using a by (simp add: last_rev)
  then have "hd (strip t) = hd ?a" using b by (simp add: strip_def hd_rev)
  moreover have "last (strip t) = hd ?b" using b by (simp add: strip_def last_rev)
  ultimately show ?thesis using ha hb by simp
qed

lemma set_strip: "set (strip t) \<subseteq> set t"
  unfolding strip_def by (auto dest!: set_dropWhileD)

lemma strip_fixed:
  "(p \<noteq> [] \<Longrightarrow> \<not> is_space (hd p) \<and> \<not> is_space (last p)) \<Longrightarrow> strip p = p"
proof (cases "p = []")
  case True
  then show ?thesis by (simp add: strip_def)
next
  case False
  assume "p \<noteq> [] \<Longrightarrow> \<not> is_space (hd p) \<and> \<not> is_space (last p)"
  with False have h: "\<not> is_space (hd p)" and l: "\<not> is_space (last p)" by auto
  have 1: "dropWhile is_space p = p" using False h by (cases p) auto
  have "hd (rev p) = last p" using False by (simp add: hd_rev)
  then have 2: "dropWhile is_space (rev p) = rev p" using False l by (simp add: dropWhile_eq_self_iff)
  show ?thesis by (simp add: strip_def 1 2)
qed

lemma strip_strip: "strip (strip t) = strip t"
  using strip_ends [of t] by (intro strip_fixed) auto

lemma strip_space_Cons: "is_space c \<Longrightarrow> strip (c # t) = strip t"
  by (simp add: strip_def)

lemma is_space_blank: "is_space CHR '' ''"
  by (simp add: is_space_def)

lemma normalize_key_unfold:
  "normalize_key inner =
     ''['' @ join '', '' (filter (\<lambda>p. p \<notin> set [''T'', ''NT''] \<and> p \<noteq> '''')
                          (map strip (split_on CHR '','' inner))) @ '']''"
  by (simp add: normalize_key_def Let_def)

lemma split_on_join_comma_space:
  "ps \<noteq> [] \<Longrightarrow> \<forall>p\<in>set ps. CHR '','' \<notin> set p \<Longrightarrow>
     split_on CHR '','' (join '', '' ps) = hd ps # map ((#) CHR '' '') (tl ps)"
proof (induction "'', ''" ps rule: join.induct)
  case 1
  then show ?case by simp
next
  case (2 p)
  then show ?case by (simp add: split_on_single)
next
  case (3 p q ps)
  have "split_on CHR '','' (join '', '' (p # q # ps))
          = p # split_on CHR '','' (CHR '' '' # join '', '' (q # ps))"
    using 3 by (simp add: split_on_append)
  also have "\<dots> = p # (CHR '' '' # q) # map ((#) CHR '' '') ps"
    using 3 by simp
  finally show ?case by simp
qed

lemma normalize_key_join_parts:
  assumes "\<forall>p\<in>set ps. CHR '','' \<notin> set p \<and> strip p = p \<and> p \<notin> set [''T'', ''NT''] \<and> p \<noteq> ''''"
  shows "normalize_key (join '', '' ps) = ''['' @ join '', '' ps @ '']''"
proof (cases "ps = []")
  case True
  then show ?thesis by (simp add: normalize_key_unfold strip_def)
next
  case False
  have sp: "split_on CHR '','' (join '', '' ps) = hd ps # map ((#) CHR '' '') (tl ps)"
    using False assms by (intro split_on_join_comma_space) auto
  have "map strip (hd ps # map ((#) CHR '' '') (tl ps)) = hd ps # tl ps"
  proof -
    have "strip (hd ps) = hd ps" using False assms by simp
    moreover have "map strip (map ((#) CHR '' '') (tl ps)) = tl ps"
    proof -
      have "\<forall>p\<in>set (tl ps). strip (CHR '' '' # p) = p"
        using assms False by (auto simp: strip_space_Cons is_space_blank dest: list.set_sel(2))
      then show ?thesis by (simp add: map_idI)
    qed
    ultimately show ?thesis by simp
  qed
  then have "map strip (split_on CHR '','' (join '', '' ps)) = ps"
    using False sp by simp
  moreover have "filter (\<lambda>p. p \<notin> set [''T'', ''NT''] \<and> p \<noteq> '''') ps = ps"
    using assms by (intro filter_True) auto
  ultimately show ?thesis by (simp add: normalize_key_unfold)
qed

section \<open>Facts about the decimal conversions\<close>

declare digits_of.simps [simp del]

lemma py_int_snoc: "py_int (ds @ [d]) = 10 * py_int ds + digit_val d"
  by (simp add: py_int_def)

lemma digit_val_digit_char: "d < 10 \<Longrightarrow> digit_val (digit_char d) = int d"
  by (simp add: digit_val_def digit_char_def)

lemma is_digit_digit_char: "d < 10 \<Longrightarrow> is_digit (digit_char d)"
  by (simp add: is_digit_def digit_char_def)

lemma py_int_digits_of: "py_int (digits_of n) = int n"
proof (induction n rule: digits_of.induct)
  case (1 n)
  show ?case
  proof (cases "n < 10")
    case True
    then show ?thesis
      using py_int_snoc [of "[]" "digit_char n"]
      by (simp add: digits_of.simps [of n] digit_val_digit_char py_int_def)
  next
    case False
    then have "py_int (digits_of (n div 10)) = int (n div 10)" using 1 by simp
    then show ?thesis using False
      by (simp add: digits_of.simps [of n] py_int_snoc digit_val_digit_char zdiv_int zmod_int)
  qed
qed

lemma digits_of_digits: "c \<in> set (digits_of n) \<Longrightarrow> is_digit c"
proof (induction n rule: digits_of.induct)
  case (1 n)
  then show ?case
    by (cases "n < 10") (auto simp: digits_of.simps [of n] is_digit_digit_char)
qed

lemma digits_of_nonempty: "digits_of n \<noteq> []"
  by (cases "n < 10") (simp_all add: digits_of.simps [of n])

lemma digits_of_inj: "digits_of a = digits_of b \<Longrightarrow> a = b"
  by (metis py_int_digits_of of_nat_eq_iff)

lemma digits_of_no_minus: "digits_of n \<noteq> CHR ''-'' # ds"
proof
  assume "digits_of n = CHR ''-'' # ds"
  then have "CHR ''-'' \<in> set (digits_of n)" by simp
  then have "is_digit CHR ''-''" by (rule digits_of_digits)
  then show False by (simp add: is_digit_def)
qed

lemma py_str_inj: "py_str a = py_str b \<Longrightarrow> a = b"
proof -
  assume eq: "py_str a = py_str b"
  consider "a < 0" "b < 0" | "a < 0" "0 \<le> b" | "0 \<le> a" "b < 0" | "0 \<le> a" "0 \<le> b"
    by linarith
  then show ?thesis
  proof cases
    case 1
    with eq have "nat (- a) = nat (- b)" by (auto simp: py_str_def dest: digits_of_inj)
    with 1 show ?thesis by simp
  next
    case 2
    with eq show ?thesis using digits_of_no_minus by (auto simp: py_str_def dest: sym)
  next
    case 3
    with eq show ?thesis using digits_of_no_minus by (auto simp: py_str_def)
  next
    case 4
    with eq have "nat a = nat b" by (auto simp: py_str_def dest: digits_of_inj)
    with 4 show ?thesis by simp
  qed
qed

lemma py_str_eq_iff: "py_str a = py_str b \<longleftrightarrow> a = b"
  using py_str_inj by auto

lemma py_int_py_str: "0 \<le> i \<Longrightarrow> py_int (py_str i) = i"
  by (simp add: py_str_def py_int_digits_of)

section \<open>Facts about the scan\<close>

lemma map_filter_append: "List.map_filter f (xs @ ys) = List.map_filter f xs @ List.map_filter f ys"
  by (simp add: List.map_filter_def)

lemma map_filter_cong_set:
  "(\<And>x. x \<in> set xs \<Longrightarrow> f x = g x) \<Longrightarrow> List.map_filter f xs = List.map_filter g xs"
proof (induction xs)
  case Nil
  show ?case by (simp add: List.map_filter_simps)
next
  case (Cons a xs)
  then have "List.map_filter f xs = List.map_filter g xs" by simp
  moreover have "f a = g a" using Cons.prems by simp
  ultimately show ?case by (simp add: List.map_filter_simps split: option.splits)
qed

lemma headers_snoc:
  "headers (ls @ [l]) = headers ls @ (case state_match l of Some g \<Rightarrow> [py_int g] | None \<Rightarrow> [])"
  by (simp add: headers_def map_filter_append List.map_filter_simps split: option.splits)

lemma first_seen_snoc:
  "first_seen (xs @ [x]) = (if x \<in> set xs then first_seen xs else first_seen xs @ [x])"
  by (simp add: first_seen_def)

lemma set_first_seen: "set (first_seen xs) = set xs"
  by (simp add: first_seen_def)

lemma distinct_first_seen: "distinct (first_seen xs)"
  by (simp add: first_seen_def)

lemma first_seen_Nil: "first_seen [] = []"
  by (simp add: first_seen_def)

lemma governing_prefix: "i \<le> length ls \<Longrightarrow> governing (ls @ ms) i = governing ls i"
  by (simp add: governing_def)

lemma governing_all:
  "governing ls (length ls) = (case headers ls of [] \<Rightarrow> None | h # hs \<Rightarrow> Some (last (h # hs)))"
  by (simp add: governing_def)

lemma items_under_snoc:
  "items_under (ls @ [l]) n =
     items_under ls n @
       (if governing ls (length ls) = Some n
        then (case line_item l of Some it \<Rightarrow> [it] | None \<Rightarrow> []) else [])"
proof -
  have "List.map_filter
          (\<lambda>i. if governing (ls @ [l]) i = Some n then line_item ((ls @ [l]) ! i) else None)
          [0..<length ls]
        = items_under ls n"
    unfolding items_under_def
    by (rule map_filter_cong_set) (simp add: governing_prefix nth_append)
  moreover have "governing (ls @ [l]) (length ls) = governing ls (length ls)"
    by (simp add: governing_prefix)
  ultimately show ?thesis
    by (simp add: items_under_def [of "ls @ [l]"] map_filter_append List.map_filter_simps
                  split: option.splits)
qed

lemma scan_snoc:
  "scan st (ls @ [l]) = (case scan st ls of Inl e \<Rightarrow> Inl e | Inr st' \<Rightarrow> loop_body st' l)"
  by (induction ls arbitrary: st) (auto split: sum.splits)

lemma headers_append: "headers (ls @ ms) = headers ls @ headers ms"
  by (simp add: headers_def map_filter_append)

lemma headers_take_subset: "set (headers (take i ls)) \<subseteq> set (headers ls)"
proof -
  have "headers ls = headers (take i ls) @ headers (drop i ls)"
    by (metis append_take_drop_id headers_append)
  then show ?thesis by auto
qed

lemma governing_in_headers: "governing ls i = Some n \<Longrightarrow> n \<in> set (headers ls)"
proof -
  assume g: "governing ls i = Some n"
  then have "headers (take i ls) \<noteq> []" and "n = last (headers (take i ls))"
    by (auto simp: governing_def split: list.splits)
  then have "n \<in> set (headers (take i ls))" by simp
  then show ?thesis using headers_take_subset by blast
qed

lemma map_filter_None: "List.map_filter (\<lambda>x. None) xs = []"
  by (simp add: List.map_filter_def)

lemma items_under_not_header: "n \<notin> set (headers ls) \<Longrightarrow> items_under ls n = []"
proof -
  assume n: "n \<notin> set (headers ls)"
  have "items_under ls n = List.map_filter (\<lambda>i. None) [0..<length ls]"
    unfolding items_under_def
    using n by (intro map_filter_cong_set) (auto dest: governing_in_headers)
  then show ?thesis by (simp add: map_filter_None)
qed

lemma governing_length:
  "governing ls (length ls) = (if headers ls = [] then None else Some (last (headers ls)))"
  by (simp add: governing_def split: list.splits)

lemma governing_snoc_length:
  "governing (ls @ [l]) (Suc (length ls)) =
     (if headers (ls @ [l]) = [] then None else Some (last (headers (ls @ [l]))))"
  using governing_length [of "ls @ [l]"] by simp

lemma Max_insert_snoc:
  "Max (insert a (set (xs @ [n]))) = max (Max (insert a (set xs))) (n::int)"
proof -
  have "insert a (set (xs @ [n])) = insert n (insert a (set xs))" by auto
  moreover have "Max (insert n (insert a (set xs))) = max n (Max (insert a (set xs)))"
    by (rule Max_insert) auto
  ultimately show ?thesis by (simp only: max.commute)
qed

lemma setdefault_map:
  "setdefault (map (\<lambda>n. (py_str n, f n)) ns) (py_str k) =
     (if k \<in> set ns then map (\<lambda>n. (py_str n, f n)) ns
      else map (\<lambda>n. (py_str n, f n)) ns @ [(py_str k, [])])"
  by (auto simp: setdefault_def comp_def image_iff py_str_eq_iff)

lemma dict_append_map:
  "k \<in> set ns \<Longrightarrow>
     dict_append (map (\<lambda>n. (py_str n, f n)) ns) (py_str k) x =
       Inr (map (\<lambda>n. (py_str n, if n = k then f n @ [x] else f n)) ns)"
  by (auto simp: dict_append_def comp_def image_iff py_str_eq_iff)

lemma loop_body_state_after: "loop_body (state_after ls) l = Inr (state_after (ls @ [l]))"
proof (cases "state_match l")
  case (Some g)
  let ?n = "py_int g"
  have hs: "headers (ls @ [l]) = headers ls @ [?n]"
    by (simp add: headers_snoc Some)
  have li: "line_item l = None" by (simp add: line_item_def Some)
  have items: "\<And>m. items_under (ls @ [l]) m = items_under ls m"
    by (simp add: items_under_snoc li)
  have d: "setdefault (data (state_after ls)) (py_str ?n)
             = data (state_after (ls @ [l]))"
    by (simp add: state_after_def setdefault_map hs first_seen_snoc set_first_seen items
                  items_under_not_header)
  have c: "current_state (state_after (ls @ [l])) = Some ?n"
    by (simp add: state_after_def governing_snoc_length hs)
  have m: "max_state_seen (state_after (ls @ [l])) = max (max_state_seen (state_after ls)) ?n"
    by (simp only: state_after_def hs Max_insert_snoc scan_state.simps)
  have "loop_body (state_after ls) l =
          Inr \<lparr>data = setdefault (data (state_after ls)) (py_str ?n),
                current_state = Some ?n,
                max_state_seen = max (max_state_seen (state_after ls)) ?n\<rparr>"
    by (simp add: loop_body_def Some Let_def)
  then show ?thesis by (simp add: d c m)
next
  case None
  have hs: "headers (ls @ [l]) = headers ls" by (simp add: headers_snoc None)
  have c: "current_state (state_after (ls @ [l])) = current_state (state_after ls)"
    by (simp add: state_after_def governing_snoc_length governing_length [of ls] hs)
  have m: "max_state_seen (state_after (ls @ [l])) = max_state_seen (state_after ls)"
    by (simp add: state_after_def hs)
  show ?thesis
  proof (cases "item_match l")
    case inone: None
    have li: "line_item l = None" by (simp add: line_item_def None inone)
    have items: "\<And>m. items_under (ls @ [l]) m = items_under ls m"
      by (simp add: items_under_snoc li)
    have "state_after (ls @ [l]) = state_after ls"
      by (simp add: state_after_def hs items governing_snoc_length governing_length [of ls])
    moreover have "loop_body (state_after ls) l = Inr (state_after ls)"
      by (simp add: loop_body_def None inone)
    ultimately show ?thesis by simp
  next
    case (Some kv)
    obtain key_inner g2 where kv: "kv = (key_inner, g2)" by (cases kv)
    let ?it = "\<lparr>key = normalize_key key_inner, item_value = py_int g2\<rparr>"
    have li: "line_item l = Some ?it" by (simp add: line_item_def None Some kv)
    show ?thesis
    proof (cases "headers ls = []")
      case True
      then have cur: "current_state (state_after ls) = None"
        by (simp add: state_after_def governing_length)
      have items: "\<And>m. items_under (ls @ [l]) m = items_under ls m"
        using True by (simp add: items_under_snoc governing_length)
      have "state_after (ls @ [l]) = state_after ls"
        by (simp add: state_after_def hs items governing_snoc_length governing_length [of ls])
      moreover have "loop_body (state_after ls) l = Inr (state_after ls)"
        by (simp add: loop_body_def None Some kv cur)
      ultimately show ?thesis by simp
    next
      case False
      let ?c = "last (headers ls)"
      have cur: "current_state (state_after ls) = Some ?c"
        using False by (simp add: state_after_def governing_length)
      have cin: "?c \<in> set (first_seen (headers ls))"
        using False by (simp add: set_first_seen)
      have items: "\<And>m. items_under (ls @ [l]) m =
                      (if m = ?c then items_under ls m @ [?it] else items_under ls m)"
        using False by (auto simp: items_under_snoc governing_length li)
      have d: "dict_append (data (state_after ls)) (py_str ?c) ?it
                 = Inr (data (state_after (ls @ [l])))"
        using cin by (simp add: state_after_def dict_append_map hs items)
      have "loop_body (state_after ls) l = Inr ((state_after ls)\<lparr>data := data (state_after (ls @ [l]))\<rparr>)"
        by (simp add: loop_body_def None Some kv cur d)
      moreover have "(state_after ls)\<lparr>data := data (state_after (ls @ [l]))\<rparr> = state_after (ls @ [l])"
        using c m by simp
      ultimately show ?thesis by simp
    qed
  qed
qed

lemma state_after_Nil: "state_after [] = init_state"
  by (simp add: state_after_def init_state_def headers_def items_under_def first_seen_def
                governing_def List.map_filter_simps)

lemma scan_init_state: "scan init_state ls = Inr (state_after ls)"
proof (induction ls rule: rev_induct)
  case Nil
  show ?case by (simp add: state_after_Nil)
next
  case (snoc l ls)
  then show ?case by (simp add: scan_snoc loop_body_state_after)
qed

lemma py_int_nonneg: "list_all is_digit ds \<Longrightarrow> 0 \<le> py_int ds"
proof (induction ds rule: rev_induct)
  case Nil
  show ?case by (simp add: py_int_def)
next
  case (snoc d ds)
  then have "0 \<le> py_int ds" and "is_digit d" by simp_all
  moreover from \<open>is_digit d\<close> have "0 \<le> digit_val d"
    by (simp add: is_digit_def digit_val_def Let_def)
  ultimately show ?case by (simp add: py_int_snoc)
qed

lemma headers_nonneg: "n \<in> set (headers ls) \<Longrightarrow> 0 \<le> n"
proof -
  assume "n \<in> set (headers ls)"
  then obtain l g where "state_match l = Some g" and n: "n = py_int g"
    by (auto simp: headers_def List.map_filter_def)
  then have "unsigned_digits g" by (auto dest: state_match_digits)
  then show ?thesis unfolding n by (simp add: unsigned_digits_def py_int_nonneg)
qed

lemma foldl_setdefault:
  "distinct (map f xs) \<Longrightarrow>
     foldl (\<lambda>d s. setdefault d (f s)) d xs =
       d @ map (\<lambda>s. (f s, [])) (filter (\<lambda>s. f s \<notin> set (map fst d)) xs)"
proof (induction xs arbitrary: d)
  case Nil
  show ?case by simp
next
  case (Cons x xs)
  show ?case
  proof (cases "f x \<in> set (map fst d)")
    case True
    then have "setdefault d (f x) = d" by (simp add: setdefault_def)
    with Cons True show ?thesis by simp
  next
    case False
    then have sd: "setdefault d (f x) = d @ [(f x, [])]" by (simp add: setdefault_def)
    have "f x \<notin> f ` set xs" using Cons.prems by simp
    then have "\<And>s. s \<in> set xs \<Longrightarrow> f s \<noteq> f x" by (metis imageI)
    then have "filter (\<lambda>s. f s \<notin> set (map fst (d @ [(f x, [])]))) xs
            = filter (\<lambda>s. f s \<notin> set (map fst d)) xs"
      by (intro filter_cong) auto
    with Cons False sd show ?thesis by simp
  qed
qed

lemma fill_gaps_map:
  "fill_gaps (map (\<lambda>n. (py_str n, f n)) ns) mx =
     map (\<lambda>n. (py_str n, f n)) ns @
       map (\<lambda>s. (py_str s, [])) (filter (\<lambda>s. s \<notin> set ns) [0..mx])"
proof -
  have "distinct (map py_str [0..mx])"
    by (simp add: distinct_map inj_on_def py_str_eq_iff)
  then show ?thesis
    unfolding fill_gaps_def
    by (simp add: foldl_setdefault comp_def image_iff py_str_eq_iff)
qed

lemma convert_lines_eq:
  "convert_lines ls inc = Inr (map (\<lambda>n. (py_str n, items_under ls n)) (key_order ls inc))"
proof (cases inc)
  case False
  then show ?thesis
    by (simp add: convert_lines_def scan_init_state state_after_def key_order_def)
next
  case True
  have gaps: "map (\<lambda>s. (py_str s, [])) (filter (\<lambda>s. s \<notin> set (headers ls)) xs)
          = map (\<lambda>n. (py_str n, items_under ls n)) (filter (\<lambda>s. s \<notin> set (headers ls)) xs)" for xs
    by (rule map_cong) (auto simp: items_under_not_header)
  show ?thesis using True
    by (simp add: convert_lines_def scan_init_state state_after_def key_order_def fill_gaps_map
                  set_first_seen gaps)
qed

lemma headers_le_Max: "n \<in> set (headers ls) \<Longrightarrow> n \<le> Max (insert (- 1) (set (headers ls)))"
  by simp

lemma Max_headers: "headers ls \<noteq> [] \<Longrightarrow> Max (insert (- 1) (set (headers ls))) = Max (set (headers ls))"
proof -
  assume ne: "headers ls \<noteq> []"
  then have "0 \<le> Max (set (headers ls))"
    using headers_nonneg [of "hd (headers ls)" ls] by (simp add: Max_ge_iff) (metis list.set_sel(1))
  with ne show ?thesis by simp
qed

lemma set_key_order_True:
  "set (key_order ls True) = {0..Max (insert (- 1) (set (headers ls)))}"
  (is "?L = ?R")
proof
  show "?L \<subseteq> ?R"
    using headers_nonneg [of _ ls] by (auto simp: key_order_def set_first_seen)
  show "?R \<subseteq> ?L"
    by (auto simp: key_order_def set_first_seen)
qed

lemma distinct_key_order: "distinct (key_order ls inc)"
  by (auto simp: key_order_def distinct_first_seen set_first_seen)

lemma map_of_py_str:
  "map_of (map (\<lambda>n. (py_str n, f n)) ns) (py_str k) = (if k \<in> set ns then Some (f k) else None)"
  by (induction ns) (auto simp: py_str_eq_iff)

lemma map_of_table_cases:
  "map_of (map (\<lambda>n. (py_str n, f n)) ns) k = Some v \<Longrightarrow> \<exists>n\<in>set ns. k = py_str n \<and> v = f n"
  by (induction ns) (auto split: if_splits)

lemma keys_convert_table:
  "map fst (map (\<lambda>n. (py_str n, f n)) ns) = map py_str ns"
  by (simp add: comp_def)

lemma distinct_map_py_str: "distinct (map py_str ns) \<longleftrightarrow> distinct ns"
  by (simp add: distinct_map inj_on_def py_str_eq_iff)

lemma first_seen_Cons: "first_seen (x # xs) = x # removeAll x (first_seen xs)"
proof -
  have "remdups (ys @ [x]) = removeAll x (remdups ys) @ [x]" for ys
    by (induction ys) auto
  then show ?thesis by (simp add: first_seen_def removeAll_filter_not_eq rev_filter)
qed

lemma key_order_True_nonneg: "n \<in> set (key_order ls True) \<Longrightarrow> 0 \<le> n"
  using set_key_order_True [of ls] by auto

lemma py_int_py_str_map: "(\<And>n. n \<in> set ns \<Longrightarrow> 0 \<le> n) \<Longrightarrow> map py_int (map py_str ns) = ns"
  by (induction ns) (auto simp: py_int_py_str)

lemma strict_sorted_upto: "sorted_wrt (<) [0..(m::int)]"
  by (simp add: strict_sorted_iff)

lemma no_gaps_subset:
  "filter (\<lambda>s. s \<notin> set hs) [0..mx] = [] \<Longrightarrow> {0..mx} \<subseteq> set (hs::int list)"
proof -
  assume "filter (\<lambda>s. s \<notin> set hs) [0..mx] = []"
  then have "\<forall>s\<in>set [0..mx]. \<not> s \<notin> set hs" by (simp only: filter_empty_conv)
  then show ?thesis by auto
qed

lemma headers_below_gaps_no_gaps:
  assumes lt: "\<forall>x\<in>set (headers ls).
      \<forall>y\<in>set (filter (\<lambda>s. s \<notin> set (headers ls)) [0..Max (insert (- 1) (set (headers ls)))]).
        x < y"
  shows "filter (\<lambda>s. s \<notin> set (headers ls)) [0..Max (insert (- 1) (set (headers ls)))] = []"
proof (rule ccontr)
  let ?hs = "headers ls"
  let ?mx = "Max (insert (- 1) (set ?hs))"
  let ?gaps = "filter (\<lambda>s. s \<notin> set ?hs) [0..?mx]"
  assume "?gaps \<noteq> []"
  then obtain g where g: "g \<in> set ?gaps" by (cases ?gaps) auto
  then have g0: "0 \<le> g" and gm: "g \<le> ?mx" by auto
  have ne: "?hs \<noteq> []"
  proof
    assume "?hs = []"
    then have "?mx = - 1" by simp
    with g0 gm show False by simp
  qed
  then have "?mx = Max (set ?hs)" by (rule Max_headers)
  moreover have "Max (set ?hs) \<in> set ?hs" using ne by (intro Max_in) auto
  ultimately have "?mx \<in> set ?hs" by simp
  with lt g have "?mx < g" by blast
  with gm show False by simp
qed

lemma headers_subset_upto: "set (headers ls) \<subseteq> {0..Max (insert (- 1) (set (headers ls)))}"
proof
  fix n assume n: "n \<in> set (headers ls)"
  then have "0 \<le> n" by (rule headers_nonneg)
  moreover from n have "n \<le> Max (insert (- 1) (set (headers ls)))" by (rule headers_le_Max)
  ultimately show "n \<in> {0..Max (insert (- 1) (set (headers ls)))}" by simp
qed

lemma sorted_key_order_True_iff:
  "sorted_wrt (<) (key_order ls True)
     \<longleftrightarrow> first_seen (headers ls) = [0..Max (insert (- 1) (set (headers ls)))]"
  (is "?L \<longleftrightarrow> ?R")
proof
  let ?hs = "headers ls"
  let ?mx = "Max (insert (- 1) (set ?hs))"
  let ?gaps = "filter (\<lambda>s. s \<notin> set ?hs) [0..?mx]"
  assume r: ?R
  have "set ?hs = set (first_seen ?hs)" by (simp only: set_first_seen)
  also have "\<dots> = {0..?mx}" by (simp only: r set_upto)
  finally have "?gaps = []" by (simp only: filter_empty_conv set_upto) blast
  then have "key_order ls True = [0..?mx]" using r by (simp add: key_order_def)
  then show ?L by (simp only: strict_sorted_upto)
next
  let ?hs = "headers ls"
  let ?mx = "Max (insert (- 1) (set ?hs))"
  let ?gaps = "filter (\<lambda>s. s \<notin> set ?hs) [0..?mx]"
  assume ?L
  then have s: "sorted_wrt (<) (first_seen ?hs @ ?gaps)" by (simp add: key_order_def)
  then have app: "sorted_wrt (<) (first_seen ?hs) \<and> sorted_wrt (<) ?gaps
      \<and> (\<forall>x\<in>set (first_seen ?hs). \<forall>y\<in>set ?gaps. x < y)"
    unfolding sorted_wrt_append .
  then have fs: "sorted_wrt (<) (first_seen ?hs)" by (rule conjunct1)
  from app have "\<forall>x\<in>set (first_seen ?hs). \<forall>y\<in>set ?gaps. x < y" by blast
  then have lt: "\<forall>x\<in>set ?hs. \<forall>y\<in>set ?gaps. x < y" by (simp only: set_first_seen)
  from lt have nogap: "?gaps = []" by (rule headers_below_gaps_no_gaps)
  then have sub1: "{0..?mx} \<subseteq> set ?hs" by (rule no_gaps_subset)
  have sub2: "set ?hs \<subseteq> {0..?mx}" by (rule headers_subset_upto)
  from sub1 sub2 have "set ?hs = {0..?mx}" by (rule subset_antisym [symmetric])
  then have eq: "set (first_seen ?hs) = set [0..?mx]" by (simp only: set_first_seen set_upto)
  have s1: "sorted (first_seen ?hs)" and d1: "distinct (first_seen ?hs)"
    using fs by (simp_all only: strict_sorted_iff)
  have s2: "sorted [0..?mx]" and d2: "distinct [0..?mx]" by simp_all
  show ?R by (rule sorted_distinct_set_unique [OF s1 d1 s2 d2 eq])
qed

lemma scan_append:
  "scan st (a @ b) = (case scan st a of Inl e \<Rightarrow> Inl e | Inr st' \<Rightarrow> scan st' b)"
  by (induction a arbitrary: st) (auto split: sum.splits)

lemma loop_body_before_header:
  "state_match l = None \<Longrightarrow> loop_body init_state l = Inr init_state"
  by (simp add: loop_body_def init_state_def split: option.splits prod.splits)

lemma scan_before_header:
  "\<forall>l\<in>set pre. state_match l = None \<Longrightarrow> scan init_state pre = Inr init_state"
  by (induction pre) (auto simp: loop_body_before_header)

lemma headers_no_header: "\<forall>l\<in>set seg. state_match l = None \<Longrightarrow> headers seg = []"
  by (induction seg) (auto simp: headers_def List.map_filter_simps)

lemma headers_repeated:
  assumes "state_match h = Some g" and "\<forall>l\<in>set seg. state_match l = None"
  shows "headers (ls @ h # seg) = headers ls @ [py_int g]"
proof -
  have "headers (ls @ h # seg) = headers ls @ headers [h] @ headers seg"
    using headers_append [of ls "[h] @ seg"] headers_append [of "[h]" seg] by simp
  moreover have "headers [h] = [py_int g]"
    using assms(1) by (simp add: headers_def List.map_filter_simps)
  ultimately show ?thesis using headers_no_header [OF assms(2)] by simp
qed

lemma map_filter_snoc:
  "List.map_filter f (xs @ [x]) = List.map_filter f xs @ (case f x of Some y \<Rightarrow> [y] | None \<Rightarrow> [])"
  by (simp add: map_filter_append List.map_filter_simps split: option.splits)

lemma items_under_segment:
  assumes h: "state_match h = Some g"
  shows "\<forall>l\<in>set seg. state_match l = None \<Longrightarrow>
     items_under (ls @ h # seg) m =
       items_under ls m @ (if m = py_int g then List.map_filter line_item seg else [])"
proof (induction seg rule: rev_induct)
  case Nil
  have "line_item h = None" using h by (simp add: line_item_def)
  then have "items_under (ls @ [h]) m = items_under ls m"
    by (simp add: items_under_snoc)
  then show ?case by (simp add: List.map_filter_simps)
next
  case (snoc l seg)
  then have nh: "\<forall>l\<in>set seg. state_match l = None" by simp
  have hs: "headers (ls @ h # seg) = headers ls @ [py_int g]"
    using h nh by (rule headers_repeated)
  have gov: "governing (ls @ h # seg) (length (ls @ h # seg)) = Some (py_int g)"
    by (simp only: governing_length hs) simp
  have "items_under ((ls @ h # seg) @ [l]) m =
          items_under (ls @ h # seg) m @
            (if Some (py_int g) = Some m
             then (case line_item l of Some it \<Rightarrow> [it] | None \<Rightarrow> []) else [])"
    by (simp only: items_under_snoc gov)
  then show ?case using snoc.IH [OF nh] by (simp add: map_filter_snoc)
qed

lemma key_order_repeated:
  assumes "state_match h = Some g" and "py_int g \<in> set (headers ls)"
    and "\<forall>l\<in>set seg. state_match l = None"
  shows "key_order (ls @ h # seg) inc = key_order ls inc"
proof -
  have hs: "headers (ls @ h # seg) = headers ls @ [py_int g]"
    using assms(1,3) by (rule headers_repeated)
  have st: "set (headers ls @ [py_int g]) = set (headers ls)"
    using assms(2) by auto
  have fs: "first_seen (headers ls @ [py_int g]) = first_seen (headers ls)"
    using assms(2) by (simp add: first_seen_snoc)
  show ?thesis unfolding key_order_def hs st fs by (rule refl)
qed

lemma after_last_colon_append:
  "CHR '':'' \<notin> set b \<Longrightarrow> after_last_colon (a @ CHR '':'' # b) = b"
proof -
  assume nb: "CHR '':'' \<notin> set b"
  have "rev (a @ CHR '':'' # b) = rev b @ CHR '':'' # rev a" by simp
  moreover have "takeWhile (\<lambda>c. c \<noteq> CHR '':'') (rev b @ CHR '':'' # rev a) = rev b"
    using nb by (intro takeWhile_tail [THEN trans, rotated]) (auto simp: takeWhile_eq_all_conv)
  ultimately show ?thesis by (simp add: after_last_colon_def)
qed

lemma strip_padded:
  assumes "list_all is_space a" and "list_all is_space c"
    and "b \<noteq> []" and "\<not> is_space (hd b)" and "\<not> is_space (last b)"
  shows "strip (a @ b @ c) = b"
proof -
  have 1: "dropWhile is_space (a @ b @ c) = b @ c"
    using assms(1,3,4) by (cases b) (auto simp: list_all_iff dropWhile_append)
  have 2: "dropWhile is_space (rev c @ rev b) = rev b"
    using assms(2,3,5) by (cases "rev b") (auto simp: list_all_iff dropWhile_append last_rev hd_rev)
  show ?thesis by (simp add: strip_def 1 2)
qed

lemma digits_strip:
  assumes "list_all is_space a" and "list_all is_space c" and "ds \<noteq> []" and "list_all is_digit ds"
  shows "strip (a @ ds @ c) = ds"
proof (rule strip_padded [OF assms(1,2,3)])
  have "is_digit (hd ds)" using assms(3,4) by (cases ds) auto
  then show "\<not> is_space (hd ds)" by (rule digit_not_space)
  have "last ds \<in> set ds" using assms(3) by simp
  then have "is_digit (last ds)" using assms(4) by (simp add: list_all_iff)
  then show "\<not> is_space (last ds)" by (rule digit_not_space)
qed

lemma item_match_after_colon:
  assumes "item_match line = Some (inner, ds)"
  shows "strip (after_last_colon line) = ds" and "unsigned_digits ds"
proof -
  from assms obtain ws1 ws2 ws3 ws4 where
    line: "line = ws1 @ ''['' @ inner @ '']'' @ ws2 @ '':'' @ ws3 @ ds @ ws4"
    and cls: "list_all is_space ws3" "list_all is_space ws4" "ds \<noteq> []" "list_all is_digit ds"
    unfolding item_match_Some_iff by blast
  have nc: "CHR '':'' \<notin> set (ws3 @ ds @ ws4)"
    using cls by (auto simp: list_all_iff punct_classes)
  have l2: "line = (ws1 @ ''['' @ inner @ '']'' @ ws2) @ CHR '':'' # (ws3 @ ds @ ws4)"
    by (simp add: line)
  have "after_last_colon line = ws3 @ ds @ ws4"
    by (subst l2) (rule after_last_colon_append [OF nc])
  then show "strip (after_last_colon line) = ds"
    using digits_strip [OF cls] by simp
  show "unsigned_digits ds" using cls by (simp add: unsigned_digits_def)
qed

lemma line_item_nonneg: "line_item l = Some it \<Longrightarrow> 0 \<le> item_value it"
proof -
  assume "line_item l = Some it"
  then obtain inner ds where m: "item_match l = Some (inner, ds)"
    and it: "it = \<lparr>key = normalize_key inner, item_value = py_int ds\<rparr>"
    by (auto simp: line_item_def split: option.splits)
  from item_match_after_colon(2) [OF m] have "list_all is_digit ds"
    by (simp add: unsigned_digits_def)
  then show ?thesis by (simp add: it py_int_nonneg)
qed

lemma set_map_filter: "set (List.map_filter f xs) = {y. \<exists>x\<in>set xs. f x = Some y}"
  by (induction xs) (auto simp: List.map_filter_simps split: option.splits)

lemma items_under_nonneg: "it \<in> set (items_under ls n) \<Longrightarrow> 0 \<le> item_value it"
  by (auto simp: items_under_def set_map_filter split: if_splits dest: line_item_nonneg)

lemma loop_body_ignored:
  "state_match line = None \<Longrightarrow> item_match line = None \<Longrightarrow> loop_body st line = Inr st"
  by (simp add: loop_body_def)

section \<open>Key normalization\<close>

text \<open>
  Claim C3. For every raw key text, \<open>normalize_key\<close> cuts it at the commas (the tokens
  joined by commas give the text back and no token holds a comma), drops every token
  that, once trimmed, is exactly \<open>T\<close>, \<open>NT\<close> or empty, trims the tokens that remain
  (each token is its trimmed text between two runs of whitespace, and a trimmed text that
  is not empty neither starts nor ends with whitespace) and joins them with a comma and a
  blank between square brackets.
\<close>

theorem normalize_key_drops_tags_and_trims:
  "normalize_key inner =
     ''['' @ join '', '' (map strip (filter (\<lambda>t. strip t \<notin> {''T'', ''NT'', ''''})
                                      (split_on CHR '','' inner))) @ '']''
   \<and> join '','' (split_on CHR '','' inner) = inner
   \<and> (\<forall>t\<in>set (split_on CHR '','' inner).
         CHR '','' \<notin> set t
         \<and> (\<exists>l r. t = l @ strip t @ r \<and> (\<forall>c\<in>set l. is_space c) \<and> (\<forall>c\<in>set r. is_space c))
         \<and> (strip t \<noteq> [] \<longrightarrow> \<not> is_space (hd (strip t)) \<and> \<not> is_space (last (strip t))))"
proof (intro conjI ballI)
  have "filter (\<lambda>p. p \<notin> set [''T'', ''NT''] \<and> p \<noteq> '''') (map strip (split_on CHR '','' inner))
      = map strip (filter (\<lambda>t. strip t \<notin> {''T'', ''NT'', ''''}) (split_on CHR '','' inner))"
    by (simp add: filter_map comp_def)
  then show "normalize_key inner =
     ''['' @ join '', '' (map strip (filter (\<lambda>t. strip t \<notin> {''T'', ''NT'', ''''})
                                      (split_on CHR '','' inner))) @ '']''"
    by (simp only: normalize_key_unfold)
next
  show "join '','' (split_on CHR '','' inner) = inner"
    by (rule join_split_on)
next
  fix t assume "t \<in> set (split_on CHR '','' inner)"
  then show "CHR '','' \<notin> set t" by (rule split_on_no_sep)
next
  fix t
  show "\<exists>l r. t = l @ strip t @ r \<and> (\<forall>c\<in>set l. is_space c) \<and> (\<forall>c\<in>set r. is_space c)"
    by (rule strip_decomp)
next
  fix t
  show "strip t \<noteq> [] \<longrightarrow> \<not> is_space (hd (strip t)) \<and> \<not> is_space (last (strip t))"
    using strip_ends by blast
qed

theorem normalize_key_drops_tags_and_trims_witness:
  "normalize_key ''T, ID, T, =, NT, Expr'' = ''[ID, =, Expr]''
   \<and> split_on CHR '','' ''T, ID, T, =, NT, Expr'' = [''T'', '' ID'', '' T'', '' ='', '' NT'', '' Expr'']"
  using normalize_key_drops_tags_and_trims [of "''T, ID, T, =, NT, Expr''"]
  by (simp add: strip_def is_space_def)

text \<open>
  Claim C4, amended. Normalization is idempotent on its outputs: when \<open>[inner]\<close> is
  the key that \<open>normalize_key\<close> returns for some raw text, normalizing \<open>inner\<close>
  returns the same key \<open>[inner]\<close>.
\<close>

theorem normalize_key_idempotent:
  assumes "normalize_key s = ''['' @ inner @ '']''"
  shows "normalize_key inner = ''['' @ inner @ '']''"
proof -
  define ps where "ps = filter (\<lambda>p. p \<notin> set [''T'', ''NT''] \<and> p \<noteq> '''')
                          (map strip (split_on CHR '','' s))"
  have "normalize_key s = ''['' @ join '', '' ps @ '']''"
    by (simp add: normalize_key_unfold ps_def)
  with assms have inner: "inner = join '', '' ps" by simp
  have "\<forall>p\<in>set ps. CHR '','' \<notin> set p \<and> strip p = p \<and> p \<notin> set [''T'', ''NT''] \<and> p \<noteq> ''''"
  proof
    fix p assume "p \<in> set ps"
    then obtain t where t: "t \<in> set (split_on CHR '','' s)" and p: "p = strip t"
      and keep: "p \<notin> set [''T'', ''NT''] \<and> p \<noteq> ''''"
      by (auto simp: ps_def)
    have "CHR '','' \<notin> set t" using t by (rule split_on_no_sep)
    then have "CHR '','' \<notin> set p" using set_strip [of t] p by auto
    moreover have "strip p = p" by (simp add: p strip_strip)
    ultimately show "CHR '','' \<notin> set p \<and> strip p = p \<and> p \<notin> set [''T'', ''NT''] \<and> p \<noteq> ''''"
      using keep by simp
  qed
  then show ?thesis unfolding inner by (rule normalize_key_join_parts)
qed

theorem normalize_key_idempotent_witness:
  "normalize_key ''T, ID, T, =, NT, Expr'' = ''[ID, =, Expr]''
   \<and> normalize_key ''ID, =, Expr'' = ''[ID, =, Expr]''"
proof -
  have h: "normalize_key ''T, ID, T, =, NT, Expr'' = ''['' @ ''ID, =, Expr'' @ '']''"
    by (simp add: normalize_key_def strip_def is_space_def)
  show ?thesis using h normalize_key_idempotent [OF h] by simp
qed

text \<open>
  Claim C4 as stated takes every inner text whose comma-separated tokens, once trimmed,
  hold no \<open>T\<close>, no \<open>NT\<close> and no empty token. That is not enough for the key to be
  its own normal form: the trimmed tokens of \<open>a,b\<close> are \<open>a\<close> and \<open>b\<close>, and
  its key is \<open>[a, b]\<close>, not \<open>[a,b]\<close>.
\<close>

theorem normalize_key_idempotent_counterexample:
  "map strip (split_on CHR '','' ''a,b'') = [''a'', ''b'']
   \<and> filter (\<lambda>p. p \<in> set [''T'', ''NT''] \<or> p = '''') (map strip (split_on CHR '','' ''a,b'')) = []
   \<and> normalize_key ''a,b'' = ''[a, b]''
   \<and> normalize_key ''a,b'' \<noteq> ''['' @ ''a,b'' @ '']''"
  by (simp add: normalize_key_def strip_def is_space_def)

section \<open>The table that convert returns\<close>

text \<open>
  Claim C1. For every input text, \<open>convert\<close> returns a table (it raises nothing) in
  which the entry of every state that has a header is exactly the sequence of the items
  of the item lines that stand after a header of that state and before the next header
  (or the end of the input), in the order of those lines in the input; and every entry
  of the table is such a sequence.
\<close>

theorem items_assigned_in_order:
  "\<exists>t. convert txt include_empty_states = Inr t
     \<and> (\<forall>n\<in>set (headers (splitlines txt)).
            map_of t (py_str n) = Some (items_under (splitlines txt) n))
     \<and> (\<forall>k v. map_of t k = Some v \<longrightarrow>
            (\<exists>n. k = py_str n \<and> v = items_under (splitlines txt) n))"
proof -
  let ?ls = "splitlines txt"
  let ?t = "map (\<lambda>n. (py_str n, items_under ?ls n)) (key_order ?ls include_empty_states)"
  have t: "convert txt include_empty_states = Inr ?t"
    by (simp add: convert_def convert_lines_eq)
  have "map_of ?t (py_str n) = Some (items_under ?ls n)" if "n \<in> set (headers ?ls)" for n
  proof -
    from that have "n \<in> set (key_order ?ls include_empty_states)"
      by (simp add: key_order_def set_first_seen)
    then show ?thesis by (simp add: map_of_py_str)
  qed
  moreover have "\<exists>n. k = py_str n \<and> v = items_under ?ls n" if "map_of ?t k = Some v" for k v
    using map_of_table_cases [OF that] by blast
  ultimately show ?thesis using t by blast
qed

theorem items_assigned_in_order_witness:
  "convert ''State 3\<newline>[$end]: 12\<newline>[T, ID, T, =, NT, Expr]: 5\<newline>State 4\<newline>[x]: 7'' True
     = Inr [(''3'', [\<lparr>key = ''[$end]'', item_value = 12\<rparr>,
                     \<lparr>key = ''[ID, =, Expr]'', item_value = 5\<rparr>]),
            (''4'', [\<lparr>key = ''[x]'', item_value = 7\<rparr>]),
            (''0'', []), (''1'', []), (''2'', [])]
   \<and> items_under (splitlines ''State 3\<newline>[$end]: 12\<newline>[T, ID, T, =, NT, Expr]: 5\<newline>State 4\<newline>[x]: 7'') 3
     = [\<lparr>key = ''[$end]'', item_value = 12\<rparr>, \<lparr>key = ''[ID, =, Expr]'', item_value = 5\<rparr>]"
proof -
  let ?txt = "''State 3\<newline>[$end]: 12\<newline>[T, ID, T, =, NT, Expr]: 5\<newline>State 4\<newline>[x]: 7''"
  have c: "convert ?txt True
     = Inr [(''3'', [\<lparr>key = ''[$end]'', item_value = 12\<rparr>,
                     \<lparr>key = ''[ID, =, Expr]'', item_value = 5\<rparr>]),
            (''4'', [\<lparr>key = ''[x]'', item_value = 7\<rparr>]),
            (''0'', []), (''1'', []), (''2'', [])]"
    by code_simp
  have h: "3 \<in> set (headers (splitlines ?txt))" by code_simp
  have s: "py_str 3 = ''3''" by code_simp
  from items_assigned_in_order [of ?txt True] c h s
  have "items_under (splitlines ?txt) 3
     = [\<lparr>key = ''[$end]'', item_value = 12\<rparr>, \<lparr>key = ''[ID, =, Expr]'', item_value = 5\<rparr>]"
    by auto
  with c show ?thesis by simp
qed

text \<open>
  Claim C2. With gap filling, the keys of the table \<open>convert\<close> returns are distinct and
  are exactly the decimal texts of 0, 1, ..., maxState, where maxState is the largest
  state index of a header line. When the input has no header line, the table is empty,
  with and without gap filling.
\<close>

theorem gap_filling_key_set:
  "(headers (splitlines txt) = [] \<longrightarrow> convert txt include_empty_states = Inr [])
   \<and> (headers (splitlines txt) \<noteq> [] \<longrightarrow>
        (\<exists>t. convert txt True = Inr t \<and> distinct (map fst t)
           \<and> set (map fst t) = py_str ` {0..Max (set (headers (splitlines txt)))}))"
proof (intro conjI impI)
  assume "headers (splitlines txt) = []"
  then show "convert txt include_empty_states = Inr []"
    by (simp add: convert_def convert_lines_eq key_order_def first_seen_Nil)
next
  let ?ls = "splitlines txt"
  let ?t = "map (\<lambda>n. (py_str n, items_under ?ls n)) (key_order ?ls True)"
  assume ne: "headers ?ls \<noteq> []"
  have "convert txt True = Inr ?t" by (simp add: convert_def convert_lines_eq)
  moreover have "distinct (map fst ?t)"
    by (simp only: keys_convert_table distinct_map_py_str distinct_key_order)
  moreover have "set (map fst ?t) = py_str ` {0..Max (set (headers ?ls))}"
    using Max_headers [OF ne] by (simp only: keys_convert_table set_map set_key_order_True)
  ultimately show "\<exists>t. convert txt True = Inr t \<and> distinct (map fst t)
           \<and> set (map fst t) = py_str ` {0..Max (set (headers ?ls))}"
    by blast
qed

theorem gap_filling_key_set_witness:
  "convert ''[a]: 1\<newline>no header here'' True = Inr []
   \<and> convert ''[a]: 1\<newline>no header here'' False = Inr []
   \<and> set (map fst [(''0'', [\<lparr>key = ''[ID, =, Expr]'', item_value = 5\<rparr>]), (''2'', []), (''1'', [])])
       = py_str ` {0..2}"
proof -
  let ?none = "''[a]: 1\<newline>no header here''"
  let ?txt = "''State 0\<newline>[T, ID, T, =, NT, Expr]: 5\<newline>State 2''"
  have h0: "headers (splitlines ?none) = []" by code_simp
  have h: "headers (splitlines ?txt) \<noteq> []" by code_simp
  have m: "Max (set (headers (splitlines ?txt))) = 2" by code_simp
  have c: "convert ?txt True
             = Inr [(''0'', [\<lparr>key = ''[ID, =, Expr]'', item_value = 5\<rparr>]), (''2'', []), (''1'', [])]"
    by code_simp
  from gap_filling_key_set [of ?none True] gap_filling_key_set [of ?none False] h0
  have "convert ?none True = Inr []" and "convert ?none False = Inr []" by blast+
  moreover from gap_filling_key_set [of ?txt] h m c
  have "set (map fst [(''0'', [\<lparr>key = ''[ID, =, Expr]'', item_value = 5\<rparr>]), (''2'', []), (''1'', [])])
       = py_str ` {0..2}"
    by auto
  ultimately show ?thesis by blast
qed

text \<open>
  Claim C5. Without gap filling, the keys of the table \<open>convert\<close> returns are exactly
  the state indices of the header lines (each one present, with or without items), each
  once, in the order of their first occurrence in the input.
\<close>

theorem no_gap_filling_keys:
  "\<exists>t. convert txt False = Inr t
     \<and> map fst t = map py_str (first_seen (headers (splitlines txt)))
     \<and> distinct (map fst t)
     \<and> set (map fst t) = py_str ` set (headers (splitlines txt))"
proof -
  let ?ls = "splitlines txt"
  let ?t = "map (\<lambda>n. (py_str n, items_under ?ls n)) (key_order ?ls False)"
  have k: "key_order ?ls False = first_seen (headers ?ls)" by (simp add: key_order_def)
  have "convert txt False = Inr ?t" by (simp add: convert_def convert_lines_eq)
  moreover have "map fst ?t = map py_str (first_seen (headers ?ls))"
    by (simp only: keys_convert_table k)
  moreover have "distinct (map fst ?t)"
    by (simp only: keys_convert_table distinct_map_py_str distinct_key_order)
  moreover have "set (map fst ?t) = py_str ` set (headers ?ls)"
    by (simp only: keys_convert_table k set_map set_first_seen)
  ultimately show ?thesis by blast
qed

theorem no_gap_filling_keys_witness:
  "convert ''State 7\<newline>State 2\<newline>[a]: 1\<newline>State 7\<newline>[b]: 2'' False
     = Inr [(''7'', [\<lparr>key = ''[b]'', item_value = 2\<rparr>]),
            (''2'', [\<lparr>key = ''[a]'', item_value = 1\<rparr>])]
   \<and> map py_str (first_seen (headers (splitlines ''State 7\<newline>State 2\<newline>[a]: 1\<newline>State 7\<newline>[b]: 2'')))
     = [''7'', ''2'']"
proof -
  let ?txt = "''State 7\<newline>State 2\<newline>[a]: 1\<newline>State 7\<newline>[b]: 2''"
  have c: "convert ?txt False
     = Inr [(''7'', [\<lparr>key = ''[b]'', item_value = 2\<rparr>]),
            (''2'', [\<lparr>key = ''[a]'', item_value = 1\<rparr>])]"
    by code_simp
  from no_gap_filling_keys [of ?txt] c
  have "map py_str (first_seen (headers (splitlines ?txt))) = [''7'', ''2'']" by auto
  with c show ?thesis by simp
qed

text \<open>
  Claim C6, amended. With gap filling, the member names of the table \<open>convert\<close> returns
  are the header indices in the order of their first occurrence, followed by the indices
  from 0 to the largest header index that no header line names, in ascending order. The
  names stand in numeric-ascending order exactly when the header indices first occur in
  the order 0, 1, ..., maxState.
\<close>

theorem gap_filling_key_order:
  "\<exists>t. convert txt True = Inr t
     \<and> map fst t =
         map py_str
           (first_seen (headers (splitlines txt)) @
            filter (\<lambda>s. s \<notin> set (headers (splitlines txt)))
              [0..Max (insert (- 1) (set (headers (splitlines txt))))])
     \<and> (ascending_names t \<longleftrightarrow>
          first_seen (headers (splitlines txt))
            = [0..Max (insert (- 1) (set (headers (splitlines txt))))])"
proof -
  let ?ls = "splitlines txt"
  let ?t = "map (\<lambda>n. (py_str n, items_under ?ls n)) (key_order ?ls True)"
  have c: "convert txt True = Inr ?t" by (simp add: convert_def convert_lines_eq)
  have keys: "map fst ?t = map py_str (key_order ?ls True)"
    by (simp only: keys_convert_table)
  have "map py_int (map py_str (key_order ?ls True)) = key_order ?ls True"
    by (rule py_int_py_str_map) (rule key_order_True_nonneg)
  then have asc: "ascending_names ?t \<longleftrightarrow> sorted_wrt (<) (key_order ?ls True)"
    unfolding ascending_names_def keys by simp
  have ko: "key_order ?ls True =
      first_seen (headers ?ls) @
        filter (\<lambda>s. s \<notin> set (headers ?ls)) [0..Max (insert (- 1) (set (headers ?ls)))]"
    by (simp add: key_order_def)
  have "map fst ?t = map py_str (first_seen (headers ?ls) @
        filter (\<lambda>s. s \<notin> set (headers ?ls)) [0..Max (insert (- 1) (set (headers ?ls)))])"
    using keys ko by simp
  moreover have "ascending_names ?t \<longleftrightarrow>
      first_seen (headers ?ls) = [0..Max (insert (- 1) (set (headers ?ls)))]"
    using asc sorted_key_order_True_iff [of ?ls] by simp
  ultimately show ?thesis using c by blast
qed

theorem gap_filling_key_order_witness:
  "convert ''State 0\<newline>State 1\<newline>[a]: 1\<newline>State 2'' True
     = Inr [(''0'', []), (''1'', [\<lparr>key = ''[a]'', item_value = 1\<rparr>]), (''2'', [])]
   \<and> ascending_names [(''0'', []), (''1'', [\<lparr>key = ''[a]'', item_value = 1\<rparr>]), (''2'', [])]"
proof -
  let ?txt = "''State 0\<newline>State 1\<newline>[a]: 1\<newline>State 2''"
  have c: "convert ?txt True
     = Inr [(''0'', []), (''1'', [\<lparr>key = ''[a]'', item_value = 1\<rparr>]), (''2'', [])]"
    by code_simp
  have f: "first_seen (headers (splitlines ?txt))
             = [0..Max (insert (- 1) (set (headers (splitlines ?txt))))]"
    by code_simp
  from gap_filling_key_order [of ?txt] obtain t where
    t: "convert ?txt True = Inr t"
    and a: "ascending_names t \<longleftrightarrow> first_seen (headers (splitlines ?txt))
             = [0..Max (insert (- 1) (set (headers (splitlines ?txt))))]"
    by blast
  from t c have "t = [(''0'', []), (''1'', [\<lparr>key = ''[a]'', item_value = 1\<rparr>]), (''2'', [])]"
    by simp
  with a f c show ?thesis by simp
qed

text \<open>
  Claim C6 as stated has the member names in numeric-ascending order for every input.
  The headers \<open>State 0\<close>, \<open>State 2\<close> give the names 0, 2, 1 (the filled state comes
  last), and the headers \<open>State 1\<close>, \<open>State 0\<close> give the names 1, 0.
\<close>

theorem names_ascending_counterexample:
  "convert ''State 0\<newline>[T, ID, T, =, NT, Expr]: 5\<newline>State 2'' True
     = Inr [(''0'', [\<lparr>key = ''[ID, =, Expr]'', item_value = 5\<rparr>]), (''2'', []), (''1'', [])]
   \<and> \<not> ascending_names
         [(''0'', [\<lparr>key = ''[ID, =, Expr]'', item_value = 5\<rparr>]), (''2'', []), (''1'', [])]
   \<and> convert ''State 1\<newline>State 0'' True = Inr [(''1'', []), (''0'', [])]
   \<and> \<not> ascending_names [(''1'', []), (''0'', [])]"
  by code_simp

text \<open>
  Claim C7. The lines that stand before the first header line (item lines among them) are
  dropped: the result is the one for the input without them, with and without gap
  filling, and it is a table, not an error.
\<close>

theorem lines_before_first_header_dropped:
  assumes "\<forall>l\<in>set pre. state_match l = None"
  shows "convert_lines (pre @ rest) include_empty_states = convert_lines rest include_empty_states
       \<and> (\<exists>t. convert_lines (pre @ rest) include_empty_states = Inr t)"
proof -
  have "scan init_state (pre @ rest) = scan init_state rest"
    using assms by (simp add: scan_append scan_before_header)
  then have "convert_lines (pre @ rest) include_empty_states
               = convert_lines rest include_empty_states"
    by (simp add: convert_lines_def)
  then show ?thesis by (simp add: convert_lines_eq)
qed

theorem lines_before_first_header_dropped_witness:
  "item_match ''[early]: 1'' = Some (''early'', ''1'')
   \<and> item_match ''  [T, x] : 22'' = Some (''T, x'', ''22'')
   \<and> convert_lines [''[early]: 1'', ''  [T, x] : 22'', ''State 0'', ''[a]: 3''] True
       = Inr [(''0'', [\<lparr>key = ''[a]'', item_value = 3\<rparr>])]
   \<and> convert_lines [''[early]: 1'', ''  [T, x] : 22'', ''State 0'', ''[a]: 3''] False
       = Inr [(''0'', [\<lparr>key = ''[a]'', item_value = 3\<rparr>])]"
proof -
  have h: "\<forall>l\<in>set [''[early]: 1'', ''  [T, x] : 22'']. state_match l = None" by code_simp
  have i: "item_match ''[early]: 1'' = Some (''early'', ''1'')"
    "item_match ''  [T, x] : 22'' = Some (''T, x'', ''22'')" by code_simp+
  have r: "convert_lines [''State 0'', ''[a]: 3''] True = Inr [(''0'', [\<lparr>key = ''[a]'', item_value = 3\<rparr>])]"
    "convert_lines [''State 0'', ''[a]: 3''] False = Inr [(''0'', [\<lparr>key = ''[a]'', item_value = 3\<rparr>])]"
    by code_simp+
  from lines_before_first_header_dropped [OF h, of "[''State 0'', ''[a]: 3'']" True]
       lines_before_first_header_dropped [OF h, of "[''State 0'', ''[a]: 3'']" False] i r
  show ?thesis by simp
qed

text \<open>
  Claim C9. A header line for a state that already has a header resets nothing: after
  it, and after the lines of its segment (any lines that are not header lines), the
  table has the same keys in the same order as before it, the entry of that state is
  its earlier item sequence followed by the items of the new segment in source order,
  and every other entry is unchanged.
\<close>

theorem repeated_header_accumulates:
  assumes "state_match h = Some g" and "py_int g \<in> set (headers ls)"
    and "\<forall>l\<in>set seg. state_match l = None"
  shows "\<exists>t t' old.
           convert_lines ls include_empty_states = Inr t
         \<and> convert_lines (ls @ h # seg) include_empty_states = Inr t'
         \<and> map fst t' = map fst t
         \<and> map_of t (py_str (py_int g)) = Some old
         \<and> map_of t' (py_str (py_int g)) = Some (old @ List.map_filter line_item seg)
         \<and> (\<forall>k. k \<noteq> py_str (py_int g) \<longrightarrow> map_of t' k = map_of t k)"
proof -
  let ?n = "py_int g"
  let ?ks = "key_order ls include_empty_states"
  let ?f = "items_under ls"
  let ?f' = "items_under (ls @ h # seg)"
  let ?t = "map (\<lambda>n. (py_str n, ?f n)) ?ks"
  let ?t' = "map (\<lambda>n. (py_str n, ?f' n)) ?ks"
  have ko: "key_order (ls @ h # seg) include_empty_states = ?ks"
    using assms by (rule key_order_repeated)
  have t: "convert_lines ls include_empty_states = Inr ?t" by (rule convert_lines_eq)
  have t': "convert_lines (ls @ h # seg) include_empty_states = Inr ?t'"
    by (simp only: convert_lines_eq ko)
  have f': "?f' m = ?f m @ (if m = ?n then List.map_filter line_item seg else [])" for m
    using items_under_segment [OF assms(1,3)] by simp
  have nin: "?n \<in> set ?ks" using assms(2) by (simp add: key_order_def set_first_seen)
  have keys: "map fst ?t' = map fst ?t" by (simp only: keys_convert_table)
  have old: "map_of ?t (py_str ?n) = Some (?f ?n)" using nin by (simp add: map_of_py_str)
  have new: "map_of ?t' (py_str ?n) = Some (?f ?n @ List.map_filter line_item seg)"
    using nin by (simp add: map_of_py_str f')
  have other: "map_of ?t' k = map_of ?t k" if "k \<noteq> py_str ?n" for k
  proof -
    have "map_of (map (\<lambda>n. (py_str n, ?f' n)) ns) k = map_of (map (\<lambda>n. (py_str n, ?f n)) ns) k" for ns
      using \<open>k \<noteq> py_str ?n\<close> by (induction ns) (auto simp: f')
    then show ?thesis .
  qed
  from t t' keys old new other show ?thesis by blast
qed

theorem repeated_header_accumulates_witness:
  "convert_lines [''State 1'', ''[a]: 1'', ''State 0'', ''[b]: 2''] False
     = Inr [(''1'', [\<lparr>key = ''[a]'', item_value = 1\<rparr>]), (''0'', [\<lparr>key = ''[b]'', item_value = 2\<rparr>])]
   \<and> convert_lines [''State 1'', ''[a]: 1'', ''State 0'', ''[b]: 2'', ''State 1'', ''[c]: 3'', ''''] False
     = Inr [(''1'', [\<lparr>key = ''[a]'', item_value = 1\<rparr>, \<lparr>key = ''[c]'', item_value = 3\<rparr>]),
            (''0'', [\<lparr>key = ''[b]'', item_value = 2\<rparr>])]
   \<and> List.map_filter line_item [''[c]: 3'', ''''] = [\<lparr>key = ''[c]'', item_value = 3\<rparr>]"
proof -
  let ?ls = "[''State 1'', ''[a]: 1'', ''State 0'', ''[b]: 2'']"
  let ?seg = "[''[c]: 3'', '''']"
  have h1: "state_match ''State 1'' = Some ''1''" by code_simp
  have h2: "py_int ''1'' \<in> set (headers ?ls)" by code_simp
  have h3: "\<forall>l\<in>set ?seg. state_match l = None" by code_simp
  have c1: "convert_lines ?ls False
     = Inr [(''1'', [\<lparr>key = ''[a]'', item_value = 1\<rparr>]), (''0'', [\<lparr>key = ''[b]'', item_value = 2\<rparr>])]"
    by code_simp
  have c2: "convert_lines (?ls @ ''State 1'' # ?seg) False
     = Inr [(''1'', [\<lparr>key = ''[a]'', item_value = 1\<rparr>, \<lparr>key = ''[c]'', item_value = 3\<rparr>]),
            (''0'', [\<lparr>key = ''[b]'', item_value = 2\<rparr>])]"
    by code_simp
  have s: "py_str (py_int ''1'') = ''1''" by code_simp
  from repeated_header_accumulates [OF h1 h2 h3, of False] obtain t t' old where
    "convert_lines ?ls False = Inr t" "convert_lines (?ls @ ''State 1'' # ?seg) False = Inr t'"
    "map_of t (py_str (py_int ''1'')) = Some old"
    "map_of t' (py_str (py_int ''1'')) = Some (old @ List.map_filter line_item ?seg)"
    by blast
  with c1 c2 s have "List.map_filter line_item ?seg = [\<lparr>key = ''[c]'', item_value = 3\<rparr>]"
    by auto
  with c1 c2 show ?thesis by simp
qed

section \<open>What the item pattern accepts\<close>

text \<open>
  Claim C8. Every item value in the table \<open>convert\<close> returns is a non-negative integer.
  A line whose text after the colon (the last colon of the line, the one that separates
  key and value in an item line) is, once trimmed, not a plain unsigned digit sequence
  matches neither pattern, and the loop body leaves the state as it is.
\<close>

theorem item_values_unsigned:
  "(\<exists>t. convert txt include_empty_states = Inr t
        \<and> (\<forall>(k, its)\<in>set t. \<forall>it\<in>set its. 0 \<le> item_value it))
   \<and> (CHR '':'' \<in> set line \<and> \<not> unsigned_digits (strip (after_last_colon line))
        \<longrightarrow> state_match line = None \<and> item_match line = None \<and> loop_body st line = Inr st)"
proof (intro conjI impI)
  let ?ls = "splitlines txt"
  let ?t = "map (\<lambda>n. (py_str n, items_under ?ls n)) (key_order ?ls include_empty_states)"
  have "convert txt include_empty_states = Inr ?t" by (simp add: convert_def convert_lines_eq)
  moreover have "\<forall>(k, its)\<in>set ?t. \<forall>it\<in>set its. 0 \<le> item_value it"
    by (auto dest: items_under_nonneg)
  ultimately show "\<exists>t. convert txt include_empty_states = Inr t
        \<and> (\<forall>(k, its)\<in>set t. \<forall>it\<in>set its. 0 \<le> item_value it)"
    by blast
next
  assume a: "CHR '':'' \<in> set line \<and> \<not> unsigned_digits (strip (after_last_colon line))"
  show s: "state_match line = None"
  proof (cases "state_match line")
    case (Some g)
    then have "CHR '':'' \<notin> set line" by (rule state_match_no_colon)
    with a show ?thesis by simp
  qed simp
  show i: "item_match line = None"
  proof (cases "item_match line")
    case (Some p)
    obtain inner ds where "p = (inner, ds)" by (cases p)
    with Some have m: "item_match line = Some (inner, ds)" by simp
    from item_match_after_colon [OF m] a show ?thesis by simp
  qed simp
  from s i show "loop_body st line = Inr st" by (rule loop_body_ignored)
qed

theorem item_values_unsigned_witness:
  "state_match ''[X]: -5'' = None \<and> item_match ''[X]: -5'' = None
   \<and> strip (after_last_colon ''[X]: -5'') = ''-5''
   \<and> convert ''State 0\<newline>[X]: -5\<newline>[Y]: +3\<newline>[Z]: 4'' True
       = Inr [(''0'', [\<lparr>key = ''[Z]'', item_value = 4\<rparr>])]"
proof -
  let ?txt = "''State 0\<newline>[X]: -5\<newline>[Y]: +3\<newline>[Z]: 4''"
  have h: "CHR '':'' \<in> set ''[X]: -5'' \<and> \<not> unsigned_digits (strip (after_last_colon ''[X]: -5''))"
    by code_simp
  have e: "strip (after_last_colon ''[X]: -5'') = ''-5''" by code_simp
  have c: "convert ?txt True = Inr [(''0'', [\<lparr>key = ''[Z]'', item_value = 4\<rparr>])]"
    by code_simp
  from item_values_unsigned [of ?txt True "''[X]: -5''"] h
  have "state_match ''[X]: -5'' = None \<and> item_match ''[X]: -5'' = None" by blast
  with e c show ?thesis by simp
qed

text \<open>
  Claim C10. A line is an item line with inner text \<open>inner\<close> exactly when it is
  whitespace, \<open>[\<close>, \<open>inner\<close>, \<open>]\<close>, whitespace, a colon, whitespace, digits,
  whitespace, where \<open>inner\<close> is any text without a line feed, closing brackets
  included. The inner text the pattern captures starts after the first \<open>[\<close> of the
  line and runs to the last \<open>]\<close> of the line, which stands before the colon.
\<close>

theorem item_inner_runs_to_last_bracket:
  "(item_match line = Some (inner, ds) \<longleftrightarrow>
      (\<exists>ws1 ws2 ws3 ws4.
         line = ws1 @ ''['' @ inner @ '']'' @ ws2 @ '':'' @ ws3 @ ds @ ws4
       \<and> list_all is_space ws1 \<and> list_all is_space ws2 \<and> list_all is_space ws3
       \<and> list_all is_space ws4 \<and> CHR 0x0A \<notin> set inner \<and> ds \<noteq> [] \<and> list_all is_digit ds))
   \<and> (item_match line = Some (inner, ds) \<longrightarrow>
      (\<exists>pre post. line = pre @ ''['' @ inner @ '']'' @ post
         \<and> CHR ''['' \<notin> set pre \<and> CHR '']'' \<notin> set post \<and> CHR '':'' \<in> set post))"
proof (intro conjI impI)
  show "item_match line = Some (inner, ds) \<longleftrightarrow>
      (\<exists>ws1 ws2 ws3 ws4.
         line = ws1 @ ''['' @ inner @ '']'' @ ws2 @ '':'' @ ws3 @ ds @ ws4
       \<and> list_all is_space ws1 \<and> list_all is_space ws2 \<and> list_all is_space ws3
       \<and> list_all is_space ws4 \<and> CHR 0x0A \<notin> set inner \<and> ds \<noteq> [] \<and> list_all is_digit ds)"
    by (rule item_match_Some_iff)
next
  assume "item_match line = Some (inner, ds)"
  then obtain ws1 ws2 ws3 ws4 where
    line: "line = ws1 @ ''['' @ inner @ '']'' @ ws2 @ '':'' @ ws3 @ ds @ ws4"
    and cls: "list_all is_space ws1" "list_all is_space ws2" "list_all is_space ws3"
      "list_all is_space ws4" "list_all is_digit ds"
    unfolding item_match_Some_iff by blast
  let ?post = "ws2 @ '':'' @ ws3 @ ds @ ws4"
  have "line = ws1 @ ''['' @ inner @ '']'' @ ?post" by (simp add: line)
  moreover have "CHR ''['' \<notin> set ws1" using cls by (auto simp: list_all_iff punct_classes)
  moreover have "CHR '']'' \<notin> set ?post" using cls by (auto simp: list_all_iff punct_classes)
  moreover have "CHR '':'' \<in> set ?post" by simp
  ultimately show "\<exists>pre post. line = pre @ ''['' @ inner @ '']'' @ post
         \<and> CHR ''['' \<notin> set pre \<and> CHR '']'' \<notin> set post \<and> CHR '':'' \<in> set post"
    by blast
qed

theorem item_inner_runs_to_last_bracket_witness:
  "item_match ''[a], [b]: 5'' = Some (''a], [b'', ''5'')
   \<and> ''[a], [b]: 5'' = '''' @ ''['' @ ''a], [b'' @ '']'' @ '': 5''
   \<and> convert_lines [''State 0'', ''[a], [b]: 5''] True
       = Inr [(''0'', [\<lparr>key = ''[a], [b]'', item_value = 5\<rparr>])]"
proof -
  have d: "''[a], [b]: 5'' = '''' @ ''['' @ ''a], [b'' @ '']'' @ '''' @ '':'' @ '' '' @ ''5'' @ ''''
      \<and> list_all is_space '''' \<and> list_all is_space '''' \<and> list_all is_space '' ''
      \<and> list_all is_space '''' \<and> CHR 0x0A \<notin> set ''a], [b'' \<and> ''5'' \<noteq> []
      \<and> list_all is_digit ''5''"
    by code_simp
  have "item_match ''[a], [b]: 5'' = Some (''a], [b'', ''5'')"
    using item_inner_runs_to_last_bracket [of "''[a], [b]: 5''" "''a], [b''" "''5''"] d
    by blast
  moreover have "convert_lines [''State 0'', ''[a], [b]: 5''] True
       = Inr [(''0'', [\<lparr>key = ''[a], [b]'', item_value = 5\<rparr>])]"
    by code_simp
  ultimately show ?thesis by simp
qed

end
